theory Spec2Isabelle
  imports Main "HOL-Library.Word"
begin

unbundle bit_operations_syntax

chapter \<open>A shallow embedding of the web server\<close>

text \<open>
  The C++ classes become records, member functions become functions that take the object
  and return the updated object. Member names lose their trailing underscore
  (\<open>isClose_\<close> is \<open>isClose\<close>, \<open>siftup_\<close> is \<open>siftup\<close>), since a name
  may not end with one here. A name that two classes use, or that is a keyword here,
  carries the class as a prefix (\<open>HttpRequest_Init\<close>, \<open>HttpConn_write\<close>,
  \<open>request_method\<close>, \<open>queue_isClose\<close>, \<open>BlockQueue_pop\<close>). Whatever aborts or
  traps in the program is a value of \<open>fault\<close>; an \<open>assert\<close> of the source is a check
  that yields \<open>AssertionFailed\<close>.
\<close>

datatype fault =
    OutOfBounds        \<comment> \<open>a vector is read or written outside \<open>[0, size)\<close>\<close>
  | AssertionFailed    \<comment> \<open>an \<open>assert\<close> of the source does not hold\<close>
  | SegmentationFault  \<comment> \<open>an address that is not mapped is dereferenced\<close>

section \<open>Text helpers\<close>

text \<open>\<open>std::to_string\<close> on integers: decimal digits, with a minus sign if negative.\<close>

fun digits :: "nat \<Rightarrow> string" where
  "digits n =
     (if n < 10 then [''0123456789'' ! n]
      else digits (n div 10) @ [''0123456789'' ! (n mod 10)])"

definition CRLF :: string where
  "CRLF = [CHR 0x0D, CHR 0x0A]"

definition to_string :: "int \<Rightarrow> string" where
  "to_string i = (if i < 0 then CHR ''-'' # digits (nat (- i)) else digits (nat i))"

text \<open>
  The conversion of a \<open>size_t\<close> to a 32-bit \<open>int\<close>: the value is reduced modulo
  \<open>2^32\<close> and read as two's complement.
\<close>

definition size_t_to_int :: "64 word \<Rightarrow> int" where
  "size_t_to_int w = sint (word_of_int (uint w) :: 32 word)"

section \<open>Byte buffer\<close>

text \<open>
  Modelled from the spec: the class \<open>Buffer\<close> (\<open>buffer.h\<close>, \<open>buffer.cpp\<close>) is used by
  the connection, the response builder and the parser, and its source is not part of the
  files at hand. The data model describes it as an ordered sequence of octets with two
  cursors \<open>read \<le> write \<le> capacity\<close>, the readable region being \<open>[read, write)\<close> and
  the writable region \<open>[write, capacity)\<close>; growth compacts first and resizes to at least
  \<open>write + N\<close> if that is not enough. The operations are named as the callers name them.
\<close>

record Buffer =
  octets :: string
  readPos :: nat
  writePos :: nat

definition ReadableBytes :: "Buffer \<Rightarrow> nat" where
  "ReadableBytes b = writePos b - readPos b"

definition WritableBytes :: "Buffer \<Rightarrow> nat" where
  "WritableBytes b = length (octets b) - writePos b"

definition readable :: "Buffer \<Rightarrow> string" where
  "readable b = take (ReadableBytes b) (drop (readPos b) (octets b))"

text \<open>\<open>Peek\<close> is the position of the read cursor inside the storage.\<close>

definition Peek :: "Buffer \<Rightarrow> nat" where
  "Peek b = readPos b"

definition Retrieve :: "nat \<Rightarrow> Buffer \<Rightarrow> Buffer" where
  "Retrieve n b = b\<lparr>readPos := readPos b + n\<rparr>"

definition RetrieveAll :: "Buffer \<Rightarrow> Buffer" where
  "RetrieveAll b = b\<lparr>readPos := 0, writePos := 0\<rparr>"

definition compact :: "Buffer \<Rightarrow> Buffer" where
  "compact b =
     b\<lparr>octets := readable b @ replicate (length (octets b) - ReadableBytes b) (CHR 0x00),
       readPos := 0, writePos := ReadableBytes b\<rparr>"

definition MakeSpace :: "nat \<Rightarrow> Buffer \<Rightarrow> Buffer" where
  "MakeSpace n b =
     (if n \<le> WritableBytes b then b
      else let c = compact b in
        if n \<le> WritableBytes c then c
        else c\<lparr>octets := octets c @ replicate (writePos c + n - length (octets c)) (CHR 0x00)\<rparr>)"

definition Append :: "string \<Rightarrow> Buffer \<Rightarrow> Buffer" where
  "Append s b =
     (let c = MakeSpace (length s) b in
      c\<lparr>octets := take (writePos c) (octets c) @ s @ drop (writePos c + length s) (octets c),
        writePos := writePos c + length s\<rparr>)"

definition empty_Buffer :: Buffer where
  "empty_Buffer = \<lparr>octets = [], readPos = 0, writePos = 0\<rparr>"

section \<open>The file system seen by the response builder\<close>

text \<open>
  \<open>struct stat\<close> with the two members that are read: \<open>st_mode\<close> (a 32-bit
  \<open>mode_t\<close>) and \<open>st_size\<close> (a signed \<open>off_t\<close>).
\<close>

record stat =
  st_mode :: "32 word"
  st_size :: int

definition zero_stat :: stat where
  "zero_stat = \<lparr>st_mode = 0, st_size = 0\<rparr>"

definition S_ISDIR :: "32 word \<Rightarrow> bool" where
  "S_ISDIR m = (m AND 0xF000 = 0x4000)"

definition S_IROTH :: "32 word" where
  "S_IROTH = 4"

text \<open>
  The system calls are answered by an environment: \<open>sys_stat p\<close> is \<open>None\<close> when
  \<open>stat\<close> returns \<open>-1\<close>; \<open>sys_open p\<close> tells whether \<open>open(p, O_RDONLY)\<close> yields a
  descriptor; \<open>sys_mmap p n\<close> is the content of the mapping of \<open>n\<close> bytes of that file,
  or \<open>None\<close> when \<open>mmap\<close> returns \<open>MAP_FAILED\<close>, which is the address \<open>(void * ) -1\<close>.
\<close>

record sys =
  sys_stat :: "string \<Rightarrow> stat option"
  sys_open :: "string \<Rightarrow> bool"
  sys_mmap :: "string \<Rightarrow> int \<Rightarrow> string option"

section \<open>HttpResponse\<close>

record HttpResponse =
  code :: int
  isKeepAlive :: bool
  path :: string
  srcDir :: string
  mmFile :: "string option"     \<comment> \<open>\<open>nullptr\<close> is \<open>None\<close>; a mapping is its bytes\<close>
  mmFileStat :: stat

definition CODE_STATUS :: "int \<rightharpoonup> string" where
  "CODE_STATUS = [200 \<mapsto> ''OK'', 400 \<mapsto> ''Bad Request'', 403 \<mapsto> ''Forbidden'',
                  404 \<mapsto> ''Not Found'']"

definition CODE_PATH :: "int \<rightharpoonup> string" where
  "CODE_PATH = [400 \<mapsto> ''/400.html'', 403 \<mapsto> ''/403.html'', 404 \<mapsto> ''/404.html'']"

definition SUFFIX_TYPE :: "string \<rightharpoonup> string" where
  "SUFFIX_TYPE = map_of
     [(''.html'', ''text/html''), (''.xml'', ''text/xml''),
      (''.xhtml'', ''application/xhtml+xml''), (''.txt'', ''text/plain''),
      (''.rtf'', ''application/rtf''), (''.pdf'', ''application/pdf''),
      (''.word'', ''application/nsword''), (''.png'', ''image/png''),
      (''.gif'', ''image/gif''), (''.jpg'', ''image/jpeg''), (''.jpeg'', ''image/jpeg''),
      (''.au'', ''audio/basic''), (''.mpeg'', ''video/mpeg''), (''.mpg'', ''video/mpeg''),
      (''.avi'', ''video/x-msvideo''), (''.gz'', ''application/x-gzip''),
      (''.tar'', ''application/x-tar''), (''.css'', ''text/css ''),
      (''.js'', ''text/javascript '')]"

definition new_HttpResponse :: HttpResponse where
  "new_HttpResponse =
     \<lparr>code = - 1, isKeepAlive = False, path = [], srcDir = [], mmFile = None,
      mmFileStat = zero_stat\<rparr>"

definition UnmapFile :: "HttpResponse \<Rightarrow> HttpResponse" where
  "UnmapFile r = (case mmFile r of None \<Rightarrow> r | Some m \<Rightarrow> r\<lparr>mmFile := None\<rparr>)"

definition File :: "HttpResponse \<Rightarrow> string option" where
  "File r = mmFile r"

text \<open>\<open>FileLen\<close> returns \<open>size_t\<close>: the signed \<open>st_size\<close> is reduced modulo \<open>2^64\<close>.\<close>

definition FileLen :: "HttpResponse \<Rightarrow> 64 word" where
  "FileLen r = word_of_int (st_size (mmFileStat r))"

definition HttpResponse_Init :: "string \<Rightarrow> string \<Rightarrow> bool \<Rightarrow> int \<Rightarrow> HttpResponse \<Rightarrow> fault + HttpResponse" where
  "HttpResponse_Init dir p keep c r =
     (if dir = [] then Inl AssertionFailed
      else
        let r1 = (if mmFile r \<noteq> None then UnmapFile r else r) in
        Inr (r1\<lparr>code := c, isKeepAlive := keep, path := p, srcDir := dir, mmFile := None,
                mmFileStat := zero_stat\<rparr>))"

text \<open>
  The first statement of \<open>MakeResponse\<close>: \<open>stat\<close> fills \<open>mmFileStat\<close> only when it
  succeeds, and the chain of tests sets the status. The flag that \<open>stat_into\<close>
  returns is \<open>stat(...) < 0\<close>.
\<close>

definition stat_into :: "sys \<Rightarrow> HttpResponse \<Rightarrow> bool \<times> HttpResponse" where
  "stat_into env r =
     (case sys_stat env (srcDir r @ path r) of
        None \<Rightarrow> (True, r)
      | Some s \<Rightarrow> (False, r\<lparr>mmFileStat := s\<rparr>))"

definition check_file :: "sys \<Rightarrow> HttpResponse \<Rightarrow> HttpResponse" where
  "check_file env r =
     (let (negative, r1) = stat_into env r in
      if negative \<or> S_ISDIR (st_mode (mmFileStat r1)) then r1\<lparr>code := 404\<rparr>
      else if st_mode (mmFileStat r1) AND S_IROTH = 0 then r1\<lparr>code := 403\<rparr>
      else if code r1 = - 1 then r1\<lparr>code := 200\<rparr>
      else r1)"

definition ErrorHtml :: "sys \<Rightarrow> HttpResponse \<Rightarrow> HttpResponse" where
  "ErrorHtml env r =
     (case CODE_PATH (code r) of
        None \<Rightarrow> r
      | Some p \<Rightarrow> snd (stat_into env (r\<lparr>path := p\<rparr>)))"

definition AddStateLine :: "HttpResponse \<times> Buffer \<Rightarrow> HttpResponse \<times> Buffer" where
  "AddStateLine = (\<lambda>(r, buff).
     (case CODE_STATUS (code r) of
        Some status \<Rightarrow>
          (r, Append (''HTTP/1.1 '' @ to_string (code r) @ '' '' @ status @ CRLF) buff)
      | None \<Rightarrow>
          (r\<lparr>code := 400\<rparr>,
           Append (''HTTP/1.1 '' @ to_string 400 @ '' '' @ the (CODE_STATUS 400) @ CRLF) buff)))"

definition find_last_of :: "char \<Rightarrow> string \<Rightarrow> nat option" where
  "find_last_of c s =
     (if c \<in> set s then Some (length s - 1 - length (takeWhile (\<lambda>x. x \<noteq> c) (rev s)))
      else None)"

definition GetFileType :: "HttpResponse \<Rightarrow> string" where
  "GetFileType r =
     (case find_last_of (CHR ''.'') (path r) of
        None \<Rightarrow> ''text/plain''
      | Some idx \<Rightarrow>
          (case SUFFIX_TYPE (drop idx (path r)) of
             Some t \<Rightarrow> t
           | None \<Rightarrow> ''text/plain''))"

definition AddHeader :: "HttpResponse \<times> Buffer \<Rightarrow> HttpResponse \<times> Buffer" where
  "AddHeader = (\<lambda>(r, buff).
     let b1 = Append ''Connection: '' buff;
         b2 = (if isKeepAlive r
               then Append (''keep-alive: max=6, timeout=120'' @ CRLF)
                      (Append (''keep-alive'' @ CRLF) b1)
               else Append (''close'' @ CRLF) b1)
     in (r, Append (''Content-type: '' @ GetFileType r @ CRLF) b2))"

definition ErrorContent :: "string \<Rightarrow> HttpResponse \<times> Buffer \<Rightarrow> HttpResponse \<times> Buffer" where
  "ErrorContent message = (\<lambda>(r, buff).
     let status = (case CODE_STATUS (code r) of Some t \<Rightarrow> t | None \<Rightarrow> ''Bad Request'');
         body = ''<html><title>Error</title>'' @ ''<body bgcolor='' @ [CHR 0x22] @ ''ffffff'' @ [CHR 0x22] @ ''>''
                @ to_string (code r) @ '' : '' @ status @ ''\<newline>''
                @ ''<p>'' @ message @ ''</p>''
                @ ''<hr><em>TinyWebServer</em></body></html>''
     in (r, Append body
              (Append (''Content-length: '' @ to_string (int (length body)) @ CRLF @ CRLF) buff)))"

text \<open>
  \<open>*mmRet\<close> reads the \<open>int\<close> at the address \<open>mmap\<close> returned. In a mapping that is
  the first four bytes of the file, the page being zero beyond the end of the file; the
  value is \<open>-1\<close> when all four are \<open>0xFF\<close>. At \<open>MAP_FAILED\<close> there is no memory to
  read: the read itself traps.
\<close>

definition deref_int :: "string option \<Rightarrow> fault + string" where
  "deref_int m =
     (case m of
        None \<Rightarrow> Inl SegmentationFault
      | Some bytes \<Rightarrow> Inr (take 4 (bytes @ replicate 4 (CHR 0x00))))"

definition minus_one :: string where
  "minus_one = replicate 4 (CHR 0xFF)"

definition AddContent :: "sys \<Rightarrow> HttpResponse \<times> Buffer \<Rightarrow> fault + HttpResponse \<times> Buffer" where
  "AddContent env = (\<lambda>(r, buff).
     if \<not> sys_open env (srcDir r @ path r)
     then Inr (ErrorContent ''File NotFound!'' (r, buff))
     else
       let mmRet = sys_mmap env (srcDir r @ path r) (st_size (mmFileStat r)) in
       (case deref_int mmRet of
          Inl f \<Rightarrow> Inl f
        | Inr v \<Rightarrow>
            if v = minus_one then Inr (ErrorContent ''File NotFound!'' (r, buff))
            else Inr (r\<lparr>mmFile := mmRet\<rparr>,
                      Append (''Content-length: '' @ to_string (st_size (mmFileStat r))
                              @ CRLF @ CRLF) buff)))"

definition MakeResponse :: "sys \<Rightarrow> HttpResponse \<times> Buffer \<Rightarrow> fault + HttpResponse \<times> Buffer" where
  "MakeResponse env = (\<lambda>(r, buff).
     AddContent env (AddHeader (AddStateLine (ErrorHtml env (check_file env r), buff))))"

section \<open>HttpRequest\<close>

text \<open>
  Modelled from the spec: of the request parser only the declaration of the class
  (\<open>httprequest.h\<close>) is at hand, the bodies of \<open>HttpRequest::Init\<close>, \<open>parse\<close> and
  their helpers (\<open>httprequest.cpp\<close>) are missing. The record follows the declaration.
  \<open>HttpRequest_Init\<close> gives the state of a new object (the constructor is
  \<open>HttpRequest() { Init(); }\<close>); \<open>parse\<close> follows the description of the parser: a
  line-oriented state machine that never consumes a partial line, returns true when it
  reached \<open>FINISH\<close> and false otherwise. The set of default pages and the database
  lookup are parameters.
\<close>

datatype PARSE_STATE = REQUEST_LINE | HEADERS | BODY | FINISH

record HttpRequest =
  state :: PARSE_STATE
  request_method :: string
  request_path :: string
  version :: string
  body :: string
  header :: "string \<rightharpoonup> string"
  post :: "string \<rightharpoonup> string"

record parse_env =
  DEFAULT_HTML :: "string list"
  UserVerify :: "string \<Rightarrow> string \<Rightarrow> bool \<Rightarrow> bool"

definition HttpRequest_Init :: "HttpRequest \<Rightarrow> HttpRequest" where
  "HttpRequest_Init r =
     r\<lparr>state := REQUEST_LINE, request_method := [], request_path := [], version := [], body := [],
       header := Map.empty, post := Map.empty\<rparr>"

definition IsKeepAlive :: "HttpRequest \<Rightarrow> bool" where
  "IsKeepAlive r = (header r ''Connection'' = Some ''keep-alive'')"

fun find_crlf :: "string \<Rightarrow> nat option" where
  "find_crlf (a # b # s) =
     (if a = CHR 0x0D \<and> b = CHR 0x0A then Some 0 else map_option Suc (find_crlf (b # s)))"
| "find_crlf s = None"

fun split_on :: "char \<Rightarrow> string \<Rightarrow> string list" where
  "split_on c [] = [[]]"
| "split_on c (x # xs) =
     (if x = c then [] # split_on c xs
      else (case split_on c xs of w # ws \<Rightarrow> (x # w) # ws | [] \<Rightarrow> [[x]]))"

definition ParseRequestLine :: "string \<Rightarrow> HttpRequest \<Rightarrow> HttpRequest option" where
  "ParseRequestLine line r =
     (case split_on (CHR '' '') line of
        [m, p, v] \<Rightarrow>
          if take 5 v = ''HTTP/''
          then Some (r\<lparr>request_method := m, request_path := p, version := drop 5 v\<rparr>)
          else None
      | _ \<Rightarrow> None)"

definition ParsePath :: "parse_env \<Rightarrow> HttpRequest \<Rightarrow> HttpRequest" where
  "ParsePath pe r =
     (if request_path r = ''/'' then r\<lparr>request_path := ''/index.html''\<rparr>
      else if request_path r \<in> set (DEFAULT_HTML pe)
      then r\<lparr>request_path := request_path r @ ''.html''\<rparr>
      else r)"

definition ParseHeader :: "string \<Rightarrow> HttpRequest \<Rightarrow> HttpRequest option" where
  "ParseHeader line r =
     (let key = takeWhile (\<lambda>x. x \<noteq> CHR '':'') line;
          rest = drop (length key) line
      in if take 2 rest = '': '' then Some (r\<lparr>header := (header r)(key \<mapsto> drop 2 rest)\<rparr>)
         else None)"

definition digit_of :: "char \<rightharpoonup> nat" where
  "digit_of = map_of (zip ''0123456789'' [0, 1, 2, 3, 4, 5, 6, 7, 8, 9])"

fun atoi_from :: "nat \<Rightarrow> string \<Rightarrow> nat" where
  "atoi_from a [] = a"
| "atoi_from a (c # s) = (case digit_of c of None \<Rightarrow> a | Some d \<Rightarrow> atoi_from (10 * a + d) s)"

definition content_length :: "HttpRequest \<Rightarrow> nat" where
  "content_length r = (case header r ''Content-Length'' of None \<Rightarrow> 0 | Some v \<Rightarrow> atoi_from 0 v)"

definition ConverHex :: "char \<rightharpoonup> nat" where
  "ConverHex = map_of (zip ''0123456789ABCDEFabcdef''
     [0, 1, 2, 3, 4, 5, 6, 7, 8, 9, 10, 11, 12, 13, 14, 15, 10, 11, 12, 13, 14, 15])"

fun url_decode :: "string \<Rightarrow> string" where
  "url_decode [] = []"
| "url_decode (c # s) =
     (if c = CHR ''+'' then CHR '' '' # url_decode s
      else if c = CHR ''%'' then
        (case s of
           h # l # t \<Rightarrow>
             (case (ConverHex h, ConverHex l) of
                (Some a, Some b) \<Rightarrow> char_of (a * 16 + b) # url_decode t
              | _ \<Rightarrow> c # url_decode s)
         | _ \<Rightarrow> c # url_decode s)
      else c # url_decode s)"

definition ParseFromUrlencoded :: "HttpRequest \<Rightarrow> HttpRequest" where
  "ParseFromUrlencoded r =
     r\<lparr>post := fold
        (\<lambda>kv m. if CHR ''='' \<in> set kv
                 then m(url_decode (takeWhile (\<lambda>x. x \<noteq> CHR ''='') kv)
                          \<mapsto> url_decode (tl (dropWhile (\<lambda>x. x \<noteq> CHR ''='') kv)))
                 else m)
        (split_on (CHR ''&'') (body r)) (post r)\<rparr>"

definition ParsePost :: "parse_env \<Rightarrow> HttpRequest \<Rightarrow> HttpRequest" where
  "ParsePost pe r =
     (let r1 = (if header r ''Content-Type'' = Some ''application/x-www-form-urlencoded''
                then ParseFromUrlencoded r else r)
      in if request_method r1 = ''POST'' \<and> request_path r1 \<in> {''/login'', ''/register''}
         then
           (if UserVerify pe (case post r1 ''username'' of Some u \<Rightarrow> u | None \<Rightarrow> [])
                 (case post r1 ''password'' of Some w \<Rightarrow> w | None \<Rightarrow> [])
                 (request_path r1 = ''/login'')
            then r1\<lparr>request_path := ''/welcome.html''\<rparr>
            else r1\<lparr>request_path := ''/error.html''\<rparr>)
         else r1)"

function parse :: "parse_env \<Rightarrow> HttpRequest \<times> Buffer \<Rightarrow> bool \<times> HttpRequest \<times> Buffer" where
  "parse pe (r, b) =
     (case state r of
        FINISH \<Rightarrow> (True, r, b)
      | BODY \<Rightarrow>
          if length (readable b) < content_length r then (False, r, b)
          else (True,
                (ParsePost pe (r\<lparr>body := take (content_length r) (readable b)\<rparr>))\<lparr>state := FINISH\<rparr>,
                Retrieve (content_length r) b)
      | REQUEST_LINE \<Rightarrow>
          (case find_crlf (readable b) of
             None \<Rightarrow> (False, r, b)
           | Some k \<Rightarrow>
               (case ParseRequestLine (take k (readable b)) r of
                  None \<Rightarrow> (False, r, Retrieve (k + 2) b)
                | Some r1 \<Rightarrow> parse pe ((ParsePath pe r1)\<lparr>state := HEADERS\<rparr>, Retrieve (k + 2) b)))
      | HEADERS \<Rightarrow>
          (case find_crlf (readable b) of
             None \<Rightarrow> (False, r, b)
           | Some k \<Rightarrow>
               if k = 0
               then parse pe
                      (r\<lparr>state := (if request_method r = ''POST'' \<and> 0 < content_length r
                                    then BODY else FINISH)\<rparr>,
                       Retrieve 2 b)
               else
                 (case ParseHeader (take k (readable b)) r of
                    None \<Rightarrow> (False, r, Retrieve (k + 2) b)
                  | Some r1 \<Rightarrow> parse pe (r1, Retrieve (k + 2) b))))"
  by pat_completeness auto
termination
proof (relation "measure (\<lambda>(pe, r, b). ReadableBytes b)")
  have crlf: "\<And>s k. find_crlf s = Some k \<Longrightarrow> k + 2 \<le> length s"
  proof -
    fix s k show "find_crlf s = Some k \<Longrightarrow> k + 2 \<le> length s"
      by (induction s arbitrary: k rule: find_crlf.induct) (auto split: if_splits)
  qed
  have rd: "\<And>b k. find_crlf (readable b) = Some k \<Longrightarrow> k + 2 \<le> ReadableBytes b"
  proof -
    fix b k assume "find_crlf (readable b) = Some k"
    then have "k + 2 \<le> length (readable b)" by (rule crlf)
    then show "k + 2 \<le> ReadableBytes b" by (simp add: readable_def)
  qed
  show "wf (measure (\<lambda>(pe, r, b). ReadableBytes b))"
    by simp
  fix pe r b k r1
  assume "find_crlf (readable b) = Some k"
  then have k: "k + 2 \<le> ReadableBytes b" by (rule rd)
  then show "((pe, (ParsePath pe r1)\<lparr>state := HEADERS\<rparr>, Retrieve (k + 2) b), pe, r, b)
       \<in> measure (\<lambda>(pe, r, b). ReadableBytes b)"
    by (simp add: ReadableBytes_def Retrieve_def)
  from k show "((pe, r1, Retrieve (k + 2) b), pe, r, b)
       \<in> measure (\<lambda>(pe, r, b). ReadableBytes b)"
    by (simp add: ReadableBytes_def Retrieve_def)
  assume "k = 0"
  with k show "((pe, r\<lparr>state := if request_method r = ''POST'' \<and> 0 < content_length r then BODY else FINISH\<rparr>,
         Retrieve 2 b), pe, r, b)
       \<in> measure (\<lambda>(pe, r, b). ReadableBytes b)"
    by (simp add: ReadableBytes_def Retrieve_def)
qed

declare parse.simps [simp del]

section \<open>HttpConn\<close>

text \<open>
  \<open>struct iovec\<close>: a base address and a \<open>size_t\<close> length. The base of \<open>iov_[0]\<close> is
  counted from the start of the write buffer's storage, the base of \<open>iov_[1]\<close> from the
  start of the mapped file. The static members \<open>userCount\<close>, \<open>srcDir\<close> and \<open>isET\<close>
  are shared by all connections and are passed to the functions that use them;
  \<open>userCount\<close> is returned updated. The peer address only feeds the log and is left out.
\<close>

record iovec =
  iov_base :: "64 word"
  iov_len :: "64 word"

record HttpConn =
  fd :: int
  isClose :: bool
  iovCnt :: int
  iov0 :: iovec
  iov1 :: iovec
  readBuff :: Buffer
  writeBuff :: Buffer
  request :: HttpRequest
  response :: HttpResponse

text \<open>
  The constructor sets \<open>fd_\<close>, \<open>addr_\<close> and \<open>isClose_\<close>; the members are constructed
  by their own constructors and the \<open>iovec\<close>s are whatever the caller finds there.
\<close>

definition new_HttpConn :: "int \<Rightarrow> iovec \<Rightarrow> iovec \<Rightarrow> HttpConn" where
  "new_HttpConn cnt v0 v1 =
     \<lparr>fd = - 1, isClose = True, iovCnt = cnt, iov0 = v0, iov1 = v1,
      readBuff = empty_Buffer, writeBuff = empty_Buffer,
      request = HttpRequest_Init
        \<lparr>state = REQUEST_LINE, request_method = [], request_path = [], version = [], body = [],
         header = Map.empty, post = Map.empty\<rparr>,
      response = new_HttpResponse\<rparr>"

definition HttpConn_init :: "int \<Rightarrow> int \<times> HttpConn \<Rightarrow> fault + int \<times> HttpConn" where
  "HttpConn_init sockFd = (\<lambda>(userCount, c).
     if \<not> 0 < sockFd then Inl AssertionFailed
     else Inr (userCount + 1,
               c\<lparr>fd := sockFd, writeBuff := RetrieveAll (writeBuff c),
                 readBuff := RetrieveAll (readBuff c), isClose := False\<rparr>))"

definition Close :: "int \<times> HttpConn \<Rightarrow> int \<times> HttpConn" where
  "Close = (\<lambda>(userCount, c).
     let c1 = c\<lparr>response := UnmapFile (response c)\<rparr> in
     if isClose c1 = False then (userCount - 1, c1\<lparr>isClose := True\<rparr>)
     else (userCount, c1))"

text \<open>\<open>ToWriteBytes\<close> adds two \<open>size_t\<close> and returns the sum as an \<open>int\<close>.\<close>

definition ToWriteBytes :: "HttpConn \<Rightarrow> int" where
  "ToWriteBytes c = size_t_to_int (iov_len (iov0 c) + iov_len (iov1 c))"

text \<open>
  The body of the loop of \<open>HttpConn::write\<close> after \<open>writev\<close> has returned a positive
  \<open>len\<close> and the two lengths are not both zero. \<open>len\<close> is an \<open>ssize_t\<close>; every use
  converts it to \<open>size_t\<close>.
\<close>

definition write_step :: "64 word \<Rightarrow> HttpConn \<Rightarrow> HttpConn" where
  "write_step len c =
     (if iov_len (iov0 c) < len then
        let c1 = c\<lparr>iov1 := \<lparr>iov_base = iov_base (iov1 c) + (len - iov_len (iov0 c)),
                              iov_len = iov_len (iov1 c) - (len - iov_len (iov0 c))\<rparr>\<rparr>
        in if iov_len (iov0 c1) \<noteq> 0
           then c1\<lparr>writeBuff := RetrieveAll (writeBuff c1),
                   iov0 := (iov0 c1)\<lparr>iov_len := 0\<rparr>\<rparr>
           else c1
      else
        c\<lparr>iov0 := \<lparr>iov_base = iov_base (iov0 c) + len, iov_len = iov_len (iov0 c) - len\<rparr>,
          writeBuff := Retrieve (unat len) (writeBuff c)\<rparr>)"

text \<open>
  The loop. The kernel's answers to the successive \<open>writev\<close> calls are a list of pairs
  \<open>(len, errno)\<close>; the result is the last \<open>len\<close>, the value stored through
  \<open>saveErrno\<close> if any, and the connection. \<open>None\<close> means the list ended while the loop
  was still running.
\<close>

fun HttpConn_write :: "bool \<Rightarrow> (64 word \<times> int) list \<Rightarrow> HttpConn \<Rightarrow> (64 word \<times> int option \<times> HttpConn) option" where
  "HttpConn_write isET [] c = None"
| "HttpConn_write isET ((len, errno) # ks) c =
     (if len \<le>s 0 then Some (len, Some errno, c)
      else if iov_len (iov0 c) + iov_len (iov1 c) = 0 then Some (len, None, c)
      else
        let c1 = write_step len c in
        if isET \<or> 10240 < ToWriteBytes c1 then HttpConn_write isET ks c1
        else Some (len, None, c1))"

text \<open>\<open>HttpConn::process\<close>; \<open>dir\<close> is the static \<open>srcDir\<close>.\<close>

definition process :: "sys \<Rightarrow> parse_env \<Rightarrow> string \<Rightarrow> HttpConn \<Rightarrow> fault + bool \<times> HttpConn" where
  "process env pe dir c =
     (let c0 = c\<lparr>request := HttpRequest_Init (request c)\<rparr> in
      if ReadableBytes (readBuff c0) \<le> 0 then Inr (False, c0)
      else
        let (ok, rq, rb) = parse pe (request c0, readBuff c0);
            c1 = c0\<lparr>request := rq, readBuff := rb\<rparr>;
            ini = (if ok
                   then HttpResponse_Init dir (request_path rq) (IsKeepAlive rq) 200 (response c1)
                   else HttpResponse_Init dir (request_path rq) False 400 (response c1))
        in case ini of
             Inl f \<Rightarrow> Inl f
           | Inr rs \<Rightarrow>
               (case MakeResponse env (rs, writeBuff c1) of
                  Inl f \<Rightarrow> Inl f
                | Inr (rs1, wb) \<Rightarrow>
                    let c2 = c1\<lparr>response := rs1, writeBuff := wb,
                                iov0 := \<lparr>iov_base = word_of_nat (Peek wb),
                                         iov_len = word_of_nat (ReadableBytes wb)\<rparr>,
                                iovCnt := 1\<rparr>
                    in Inr (True,
                            if 0 < FileLen rs1 \<and> File rs1 \<noteq> None
                            then c2\<lparr>iov1 := \<lparr>iov_base = 0, iov_len = FileLen rs1\<rparr>,
                                    iovCnt := 2\<rparr>
                            else c2)))"

section \<open>HeapTimer\<close>

text \<open>
  A \<open>TimeStamp\<close> counts the ticks of \<open>high_resolution_clock\<close>, which are nanoseconds;
  \<open>MS n\<close> is \<open>n\<close> milliseconds in ticks, and \<open>duration_cast<MS>\<close> divides by
  \<open>10^6\<close> truncating towards zero. A callback is represented by a label; running it
  appends the label to a trace. \<open>Clock::now()\<close> is answered by a sequence of readings:
  \<open>clock k\<close> is the \<open>k\<close>-th reading, and the functions that read the clock return
  the number of readings used so far. The member \<open>id\<close> is \<open>node_id\<close> here.
\<close>

type_synonym TimeStamp = int
type_synonym TimeoutCallBack = int

definition MS :: "int \<Rightarrow> int" where
  "MS n = n * 1000000"

definition duration_cast_MS :: "int \<Rightarrow> int" where
  "duration_cast_MS d = (if 0 \<le> d then d div 1000000 else - ((- d) div 1000000))"

record TimerNode =
  node_id :: int
  expires :: TimeStamp
  cb :: TimeoutCallBack

record HeapTimer =
  heap :: "TimerNode list"
  ref :: "int \<rightharpoonup> nat"

text \<open>
  An index is a \<open>size_t\<close>: a natural number below \<open>2^64\<close>, with the wrap-around of
  \<open>i - 1\<close> and \<open>2 * i + 1\<close> written out. No vector has more than \<open>PTRDIFF_MAX\<close>
  elements, so an index is inside the vector when it is below its size and the size
  is one a vector can have.
\<close>

definition max_size :: nat where
  "max_size = 2 ^ 63 - 1"

definition in_range :: "'a list \<Rightarrow> nat \<Rightarrow> bool" where
  "in_range xs i = (i < length xs \<and> length xs \<le> max_size)"

definition parent_of :: "nat \<Rightarrow> nat" where
  "parent_of i = ((i + 2 ^ 64 - 1) mod 2 ^ 64) div 2"

definition left_child :: "nat \<Rightarrow> nat" where
  "left_child i = (2 * i + 1) mod 2 ^ 64"

definition SwapNode :: "nat \<Rightarrow> nat \<Rightarrow> HeapTimer \<Rightarrow> fault + HeapTimer" where
  "SwapNode i j t =
     (if \<not> in_range (heap t) i \<or> \<not> in_range (heap t) j then Inl AssertionFailed
      else
        let h = (heap t)[i := heap t ! j, j := heap t ! i] in
        Inr (t\<lparr>heap := h, ref := ((ref t)(node_id (h ! i) \<mapsto> i))(node_id (h ! j) \<mapsto> j)\<rparr>))"

text \<open>
  The loop of \<open>siftup_\<close>. Its condition \<open>parent >= 0\<close> compares a \<open>size_t\<close> with
  zero and is always true; \<open>parent\<close> is \<open>(i - 1) / 2\<close> whenever the loop body starts.
\<close>

function siftup_loop :: "nat \<Rightarrow> HeapTimer \<Rightarrow> fault + HeapTimer" where
  "siftup_loop i t =
     (if \<not> in_range (heap t) (parent_of i) \<or> \<not> in_range (heap t) i then Inl OutOfBounds
      else if expires (heap t ! i) < expires (heap t ! parent_of i)
      then (case SwapNode i (parent_of i) t of
              Inl f \<Rightarrow> Inl f
            | Inr t1 \<Rightarrow> siftup_loop (parent_of i) t1)
      else Inr t)"
  by pat_completeness auto
termination
proof (relation "measure (\<lambda>(i, t). i)")
  show "wf (measure (\<lambda>(i, t). i))" by simp
  fix i :: nat and t t1 :: HeapTimer
  assume "\<not> (\<not> in_range (heap t) (parent_of i) \<or> \<not> in_range (heap t) i)"
  then have p: "parent_of i < 2 ^ 63 - 1" and i: "i < 2 ^ 63 - 1"
    by (auto simp: in_range_def max_size_def)
  have "i \<noteq> 0"
  proof
    assume "i = 0"
    then have "parent_of i = 2 ^ 63 - 1" by (simp add: parent_of_def)
    with p show False by simp
  qed
  then have e: "i + 2 ^ 64 - 1 = (i - 1) + 2 ^ 64" by simp
  have "(i - 1 + 2 ^ 64) mod 2 ^ 64 = (i - 1) mod (2 ^ 64 :: nat)" by (rule mod_add_self2)
  also have "\<dots> = i - 1" using i by simp
  finally have "parent_of i = (i - 1) div 2" unfolding parent_of_def e by simp
  with \<open>i \<noteq> 0\<close> have "parent_of i < i" by simp
  then show "((parent_of i, t1), i, t) \<in> measure (\<lambda>(i, t). i)" by simp
qed

declare siftup_loop.simps [simp del]

definition siftup :: "nat \<Rightarrow> HeapTimer \<Rightarrow> fault + HeapTimer" where
  "siftup i t = (if \<not> in_range (heap t) i then Inl AssertionFailed else siftup_loop i t)"

text \<open>The loop of \<open>siftdown_\<close>; the result carries the final value of \<open>index\<close>.\<close>

function siftdown_loop :: "nat \<Rightarrow> nat \<Rightarrow> nat \<Rightarrow> HeapTimer \<Rightarrow> fault + nat \<times> HeapTimer" where
  "siftdown_loop index child n t =
     (if child < n then
        if \<not> in_range (heap t) child \<or> \<not> in_range (heap t) index
           \<or> (child + 1 < n \<and> \<not> in_range (heap t) (child + 1))
        then Inl OutOfBounds
        else
          let c = (if child + 1 < n \<and> expires (heap t ! (child + 1)) < expires (heap t ! child)
                   then child + 1 else child)
          in if expires (heap t ! c) < expires (heap t ! index)
             then (case SwapNode index c t of
                     Inl f \<Rightarrow> Inl f
                   | Inr t1 \<Rightarrow> siftdown_loop c (left_child c) n t1)
             else Inr (index, t)
      else Inr (index, t))"
  by pat_completeness auto
termination
proof (relation "measure (\<lambda>(index, child, n, t). n - child)")
  show "wf (measure (\<lambda>(index, child, n, t). n - child))" by simp
  fix index child n :: nat and t t1 :: HeapTimer and c :: nat
  assume lt: "child < n"
    and rng: "\<not> (\<not> in_range (heap t) child \<or> \<not> in_range (heap t) index
           \<or> (child + 1 < n \<and> \<not> in_range (heap t) (child + 1)))"
    and c: "c = (if child + 1 < n \<and> expires (heap t ! (child + 1)) < expires (heap t ! child)
                 then child + 1 else child)"
  from rng c have "c < 2 ^ 63 - 1"
    by (auto simp: in_range_def max_size_def split: if_splits)
  then have "left_child c = 2 * c + 1" by (simp add: left_child_def)
  moreover from c have "child \<le> c" by (simp split: if_splits)
  ultimately have "n - left_child c < n - child" using lt by simp
  then show "((c, left_child c, n, t1), index, child, n, t)
              \<in> measure (\<lambda>(index, child, n, t). n - child)" by simp
qed

declare siftdown_loop.simps [simp del]

definition siftdown :: "nat \<Rightarrow> nat \<Rightarrow> HeapTimer \<Rightarrow> fault + bool \<times> HeapTimer" where
  "siftdown i n t =
     (if \<not> in_range (heap t) i \<or> \<not> n \<le> length (heap t) then Inl AssertionFailed
      else (case siftdown_loop i (left_child i) n t of
              Inl f \<Rightarrow> Inl f
            | Inr (index, t1) \<Rightarrow> Inr (i < index, t1)))"

definition del :: "nat \<Rightarrow> HeapTimer \<Rightarrow> fault + HeapTimer" where
  "del index t =
     (if \<not> in_range (heap t) index then Inl AssertionFailed
      else
        (case (if index < length (heap t) - 1
               then (case SwapNode index (length (heap t) - 1) t of
                       Inl f \<Rightarrow> Inl f
                     | Inr t1 \<Rightarrow>
                         (case siftdown index (length (heap t) - 1) t1 of
                            Inl f \<Rightarrow> Inl f
                          | Inr (moved, t2) \<Rightarrow> if \<not> moved then siftup index t2 else Inr t2))
               else Inr t) of
           Inl f \<Rightarrow> Inl f
         | Inr t3 \<Rightarrow>
             Inr (t3\<lparr>ref := (ref t3)(node_id (last (heap t3)) := None),
                     heap := butlast (heap t3)\<rparr>)))"

definition adjust :: "int \<Rightarrow> int \<Rightarrow> TimeStamp \<Rightarrow> HeapTimer \<Rightarrow> fault + HeapTimer" where
  "adjust i newExpires now t =
     (if heap t = [] then Inl AssertionFailed
      else (case ref t i of
              None \<Rightarrow> Inl AssertionFailed
            | Some k \<Rightarrow>
                if \<not> in_range (heap t) k then Inl OutOfBounds
                else
                  let t1 = t\<lparr>heap := (heap t)[k := (heap t ! k)\<lparr>expires := now + MS newExpires\<rparr>]\<rparr>
                  in (case siftdown k (length (heap t1)) t1 of
                        Inl f \<Rightarrow> Inl f
                      | Inr (moved, t2) \<Rightarrow> Inr t2)))"

text \<open>
  In \<open>add\<close> the index found in \<open>ref_\<close> is stored in an \<open>int\<close> and converted back to
  \<open>size_t\<close> at each use.
\<close>

definition through_int :: "nat \<Rightarrow> nat" where
  "through_int k =
     (if k mod 2 ^ 32 < 2 ^ 31 then k mod 2 ^ 32 else k mod 2 ^ 32 + (2 ^ 64 - 2 ^ 32))"

definition add :: "int \<Rightarrow> int \<Rightarrow> TimeoutCallBack \<Rightarrow> TimeStamp \<Rightarrow> HeapTimer \<Rightarrow> fault + HeapTimer" where
  "add i timeOut c now t =
     (if \<not> 0 \<le> i then Inl AssertionFailed
      else (case ref t i of
              Some k \<Rightarrow>
                if \<not> in_range (heap t) (through_int k) then Inl OutOfBounds
                else
                  let tmp = through_int k;
                      t1 = t\<lparr>heap := (heap t)[tmp := (heap t ! tmp)\<lparr>expires := now + MS timeOut,
                                                                    cb := c\<rparr>]\<rparr>
                  in (case siftdown tmp (length (heap t1)) t1 of
                        Inl f \<Rightarrow> Inl f
                      | Inr (moved, t2) \<Rightarrow> if \<not> moved then siftup tmp t2 else Inr t2)
            | None \<Rightarrow>
                let n = length (heap t);
                    t1 = t\<lparr>ref := (ref t)(i \<mapsto> n),
                           heap := heap t @ [\<lparr>node_id = i, expires = now + MS timeOut, cb = c\<rparr>]\<rparr>
                in siftup n t1))"

definition doWork :: "int \<Rightarrow> HeapTimer \<Rightarrow> fault + TimeoutCallBack list \<times> HeapTimer" where
  "doWork i t =
     (if heap t = [] then Inr ([], t)
      else (case ref t i of
              None \<Rightarrow> Inr ([], t)
            | Some k \<Rightarrow>
                if \<not> in_range (heap t) k then Inl OutOfBounds
                else (case del k t of
                        Inl f \<Rightarrow> Inl f
                      | Inr t1 \<Rightarrow> Inr ([cb (heap t ! k)], t1))))"

definition pop :: "HeapTimer \<Rightarrow> fault + HeapTimer" where
  "pop t = (if heap t = [] then Inl AssertionFailed else del 0 t)"

definition clear :: "HeapTimer \<Rightarrow> HeapTimer" where
  "clear t = t\<lparr>ref := Map.empty, heap := []\<rparr>"

text \<open>The constructor reserves storage for 64 nodes; the timer it leaves holds none.\<close>

definition new_HeapTimer :: HeapTimer where
  "new_HeapTimer = \<lparr>heap = [], ref = Map.empty\<rparr>"

text \<open>
  \<open>tick\<close>: each round reads the clock once. The callback of the root runs, then the
  root is removed.
\<close>

function tick :: "(nat \<Rightarrow> TimeStamp) \<Rightarrow> nat \<Rightarrow> TimeoutCallBack list \<Rightarrow> HeapTimer
    \<Rightarrow> fault + TimeoutCallBack list \<times> nat \<times> HeapTimer" where
  "tick clock k fired t =
     (case heap t of
        [] \<Rightarrow> Inr (fired, k, t)
      | node # rest \<Rightarrow>
          if 0 < duration_cast_MS (expires node - clock k) then Inr (fired, Suc k, t)
          else (case pop t of
                  Inl f \<Rightarrow> Inl f
                | Inr t1 \<Rightarrow> tick clock (Suc k) (fired @ [cb node]) t1))"
  by pat_completeness auto
termination
proof (relation "measure (\<lambda>(clock, k, fired, t). length (heap t))")
  show "wf (measure (\<lambda>(clock, k, fired, t). length (heap t)))" by simp
  have sw: "\<And>i j t t1. SwapNode i j t = Inr t1 \<Longrightarrow> length (heap t1) = length (heap t)"
    by (auto simp: SwapNode_def Let_def split: if_splits)
  have up: "\<And>i t t1. siftup_loop i t = Inr t1 \<Longrightarrow> length (heap t1) = length (heap t)"
  proof -
    fix i t t1
    show "siftup_loop i t = Inr t1 \<Longrightarrow> length (heap t1) = length (heap t)"
    proof (induction i t rule: siftup_loop.induct)
      case (1 i t)
      show ?case
      proof (cases "expires (heap t ! i) < expires (heap t ! parent_of i)")
        case True
        with "1.prems" obtain t0 where s: "SwapNode i (parent_of i) t = Inr t0"
          and r: "siftup_loop (parent_of i) t0 = Inr t1"
          and g: "\<not> (\<not> in_range (heap t) (parent_of i) \<or> \<not> in_range (heap t) i)"
          by (subst (asm) siftup_loop.simps) (auto split: if_splits sum.splits)
        from "1.IH"[OF g True s r] sw[OF s] show ?thesis by simp
      next
        case False
        with "1.prems" show ?thesis
          by (subst (asm) siftup_loop.simps) (auto split: if_splits)
      qed
    qed
  qed
  have down: "\<And>x c n t y t1. siftdown_loop x c n t = Inr (y, t1)
      \<Longrightarrow> length (heap t1) = length (heap t)"
  proof -
    fix x c n t y t1
    show "siftdown_loop x c n t = Inr (y, t1) \<Longrightarrow> length (heap t1) = length (heap t)"
    proof (induction x c n t rule: siftdown_loop.induct)
      case (1 index child n t)
      define c where "c = (if child + 1 < n \<and> expires (heap t ! (child + 1)) < expires (heap t ! child)
                   then child + 1 else child)"
      show ?case
      proof (cases "child < n \<and> expires (heap t ! c) < expires (heap t ! index)")
        case True
        with "1.prems" obtain t0 where s: "SwapNode index c t = Inr t0"
          and r: "siftdown_loop c (left_child c) n t0 = Inr (y, t1)"
          and g: "\<not> (\<not> in_range (heap t) child \<or> \<not> in_range (heap t) index
                 \<or> (child + 1 < n \<and> \<not> in_range (heap t) (child + 1)))"
          by (subst (asm) siftdown_loop.simps)
            (auto simp: Let_def c_def split: if_splits sum.splits)
        from True have lt: "child < n" and ex: "expires (heap t ! c) < expires (heap t ! index)"
          by simp_all
        from "1.IH"[OF lt g c_def ex s r] sw[OF s] show ?thesis by simp
      next
        case False
        with "1.prems" show ?thesis
          by (subst (asm) siftdown_loop.simps)
            (auto simp: Let_def c_def split: if_splits)
      qed
    qed
  qed
  have dl: "\<And>i t t1. del i t = Inr t1 \<Longrightarrow> heap t \<noteq> [] \<Longrightarrow> length (heap t1) < length (heap t)"
    by (auto simp: del_def siftdown_def siftup_def split: if_splits sum.splits prod.splits
          dest!: sw up down)
  fix clock :: "nat \<Rightarrow> TimeStamp" and k :: nat and fired :: "TimeoutCallBack list"
    and t t1 :: HeapTimer and node rest
  assume "heap t = node # rest" and "pop t = Inr t1"
  then have "length (heap t1) < length (heap t)"
    by (auto simp: pop_def dest: dl)
  then show "((clock, Suc k, fired @ [cb node], t1), clock, k, fired, t)
      \<in> measure (\<lambda>(clock, k, fired, t). length (heap t))" by simp
qed

declare tick.simps [simp del]

text \<open>
  \<open>GetNextTick\<close>: \<open>res\<close> is a \<open>size_t\<close>, so \<open>-1\<close> and the count of milliseconds
  are reduced modulo \<open>2^64\<close> and \<open>res < 0\<close> compares unsigned values; the function
  returns \<open>res\<close> converted to \<open>int\<close>.
\<close>

definition GetNextTick :: "(nat \<Rightarrow> TimeStamp) \<Rightarrow> nat \<Rightarrow> HeapTimer
    \<Rightarrow> fault + int \<times> TimeoutCallBack list \<times> nat \<times> HeapTimer" where
  "GetNextTick clock k t =
     (case tick clock k [] t of
        Inl f \<Rightarrow> Inl f
      | Inr (fired, k1, t1) \<Rightarrow>
          (case heap t1 of
             [] \<Rightarrow> Inr (size_t_to_int (- 1), fired, k1, t1)
           | node # rest \<Rightarrow>
               let res = (word_of_int (duration_cast_MS (expires node - clock k1)) :: 64 word)
               in Inr (size_t_to_int (if res < 0 then 0 else res), fired, Suc k1, t1)))"

section \<open>HeapTimer as the program is built\<close>

text \<open>
  \<open>heap_[k]\<close> is \<open>std::vector::operator[]\<close>, which checks nothing. The functions above
  stop with \<open>OutOfBounds\<close> at an index outside the vector, as a build with checked
  containers does. The program as it is built reads the storage at that index and goes
  on with what it finds there. The read in question is \<open>heap_[parent]\<close> of
  \<open>siftup_\<close> at the root, where \<open>parent\<close> is \<open>2^63 - 1\<close>. In the functions
  below it is answered by a parameter \<open>x\<close>, the node that the read finds. If the
  deadline of \<open>x\<close> is later than the root's, \<open>siftup_\<close> calls
  \<open>SwapNode_(0, parent)\<close>, whose assertion fails; otherwise the loop ends. Either
  way a call of \<open>siftup_\<close> reads outside the vector at most once, and each of
  \<open>del_\<close>, \<open>add\<close>, \<open>doWork\<close> and \<open>pop\<close> calls \<open>siftup_\<close> at most once:
  they are given one node \<open>x\<close>, and \<open>tick\<close> is given one for each round,
  \<open>stray k\<close> for the round that reads \<open>clock k\<close>. Everything else is as above;
  \<open>siftdown_\<close> and \<open>adjust\<close> have no such read and are used as they are. The
  accesses that are still checked stay inside the vector as long as the invariant of
  the heap holds (lemma \<open>timer_step_fault\<close>).
\<close>

function siftup_loop_unchecked :: "TimerNode \<Rightarrow> nat \<Rightarrow> HeapTimer \<Rightarrow> fault + HeapTimer" where
  "siftup_loop_unchecked x i t =
     (if \<not> in_range (heap t) i then Inl OutOfBounds
      else if expires (heap t ! i)
              < expires (if in_range (heap t) (parent_of i) then heap t ! parent_of i else x)
      then (case SwapNode i (parent_of i) t of
              Inl f \<Rightarrow> Inl f
            | Inr t1 \<Rightarrow> siftup_loop_unchecked x (parent_of i) t1)
      else Inr t)"
  by pat_completeness auto
termination
proof (relation "measure (\<lambda>(x, i, t). i)")
  show "wf (measure (\<lambda>(x, i, t). i))" by simp
  fix x :: TimerNode and i :: nat and t t1 :: HeapTimer
  assume "SwapNode i (parent_of i) t = Inr t1"
  then have p: "parent_of i < 2 ^ 63 - 1" and i: "i < 2 ^ 63 - 1"
    by (auto simp: SwapNode_def in_range_def max_size_def split: if_splits)
  have "i \<noteq> 0"
  proof
    assume "i = 0"
    then have "parent_of i = 2 ^ 63 - 1" by (simp add: parent_of_def)
    with p show False by simp
  qed
  then have e: "i + 2 ^ 64 - 1 = (i - 1) + 2 ^ 64" by simp
  have "(i - 1 + 2 ^ 64) mod 2 ^ 64 = (i - 1) mod (2 ^ 64 :: nat)" by (rule mod_add_self2)
  also have "\<dots> = i - 1" using i by simp
  finally have "parent_of i = (i - 1) div 2" unfolding parent_of_def e by simp
  with \<open>i \<noteq> 0\<close> have "parent_of i < i" by simp
  then show "((x, parent_of i, t1), x, i, t) \<in> measure (\<lambda>(x, i, t). i)" by simp
qed

declare siftup_loop_unchecked.simps [simp del]

definition siftup_unchecked :: "TimerNode \<Rightarrow> nat \<Rightarrow> HeapTimer \<Rightarrow> fault + HeapTimer" where
  "siftup_unchecked x i t =
     (if \<not> in_range (heap t) i then Inl AssertionFailed else siftup_loop_unchecked x i t)"

definition del_unchecked :: "TimerNode \<Rightarrow> nat \<Rightarrow> HeapTimer \<Rightarrow> fault + HeapTimer" where
  "del_unchecked x index t =
     (if \<not> in_range (heap t) index then Inl AssertionFailed
      else
        (case (if index < length (heap t) - 1
               then (case SwapNode index (length (heap t) - 1) t of
                       Inl f \<Rightarrow> Inl f
                     | Inr t1 \<Rightarrow>
                         (case siftdown index (length (heap t) - 1) t1 of
                            Inl f \<Rightarrow> Inl f
                          | Inr (moved, t2) \<Rightarrow>
                              if \<not> moved then siftup_unchecked x index t2 else Inr t2))
               else Inr t) of
           Inl f \<Rightarrow> Inl f
         | Inr t3 \<Rightarrow>
             Inr (t3\<lparr>ref := (ref t3)(node_id (last (heap t3)) := None),
                     heap := butlast (heap t3)\<rparr>)))"

definition add_unchecked :: "TimerNode \<Rightarrow> int \<Rightarrow> int \<Rightarrow> TimeoutCallBack \<Rightarrow> TimeStamp \<Rightarrow> HeapTimer
    \<Rightarrow> fault + HeapTimer" where
  "add_unchecked x i timeOut c now t =
     (if \<not> 0 \<le> i then Inl AssertionFailed
      else (case ref t i of
              Some k \<Rightarrow>
                if \<not> in_range (heap t) (through_int k) then Inl OutOfBounds
                else
                  let tmp = through_int k;
                      t1 = t\<lparr>heap := (heap t)[tmp := (heap t ! tmp)\<lparr>expires := now + MS timeOut,
                                                                    cb := c\<rparr>]\<rparr>
                  in (case siftdown tmp (length (heap t1)) t1 of
                        Inl f \<Rightarrow> Inl f
                      | Inr (moved, t2) \<Rightarrow>
                          if \<not> moved then siftup_unchecked x tmp t2 else Inr t2)
            | None \<Rightarrow>
                let n = length (heap t);
                    t1 = t\<lparr>ref := (ref t)(i \<mapsto> n),
                           heap := heap t @ [\<lparr>node_id = i, expires = now + MS timeOut, cb = c\<rparr>]\<rparr>
                in siftup_unchecked x n t1))"

definition doWork_unchecked :: "TimerNode \<Rightarrow> int \<Rightarrow> HeapTimer
    \<Rightarrow> fault + TimeoutCallBack list \<times> HeapTimer" where
  "doWork_unchecked x i t =
     (if heap t = [] then Inr ([], t)
      else (case ref t i of
              None \<Rightarrow> Inr ([], t)
            | Some k \<Rightarrow>
                if \<not> in_range (heap t) k then Inl OutOfBounds
                else (case del_unchecked x k t of
                        Inl f \<Rightarrow> Inl f
                      | Inr t1 \<Rightarrow> Inr ([cb (heap t ! k)], t1))))"

definition pop_unchecked :: "TimerNode \<Rightarrow> HeapTimer \<Rightarrow> fault + HeapTimer" where
  "pop_unchecked x t = (if heap t = [] then Inl AssertionFailed else del_unchecked x 0 t)"

function tick_unchecked :: "(nat \<Rightarrow> TimerNode) \<Rightarrow> (nat \<Rightarrow> TimeStamp) \<Rightarrow> nat
    \<Rightarrow> TimeoutCallBack list \<Rightarrow> HeapTimer \<Rightarrow> fault + TimeoutCallBack list \<times> nat \<times> HeapTimer" where
  "tick_unchecked stray clock k fired t =
     (case heap t of
        [] \<Rightarrow> Inr (fired, k, t)
      | node # rest \<Rightarrow>
          if 0 < duration_cast_MS (expires node - clock k) then Inr (fired, Suc k, t)
          else (case pop_unchecked (stray k) t of
                  Inl f \<Rightarrow> Inl f
                | Inr t1 \<Rightarrow> tick_unchecked stray clock (Suc k) (fired @ [cb node]) t1))"
  by pat_completeness auto
termination
proof (relation "measure (\<lambda>(stray, clock, k, fired, t). length (heap t))")
  show "wf (measure (\<lambda>(stray, clock, k, fired, t). length (heap t)))" by simp
  have sw: "\<And>i j t t1. SwapNode i j t = Inr t1 \<Longrightarrow> length (heap t1) = length (heap t)"
    by (auto simp: SwapNode_def Let_def split: if_splits)
  have up: "\<And>x i t t1. siftup_loop_unchecked x i t = Inr t1 \<Longrightarrow> length (heap t1) = length (heap t)"
  proof -
    fix x i t t1
    show "siftup_loop_unchecked x i t = Inr t1 \<Longrightarrow> length (heap t1) = length (heap t)"
    proof (induction x i t rule: siftup_loop_unchecked.induct)
      case (1 x i t)
      note unf = "1.prems" [unfolded siftup_loop_unchecked.simps [of x i t]]
      show ?case
      proof (cases "in_range (heap t) i \<and> expires (heap t ! i)
              < expires (if in_range (heap t) (parent_of i) then heap t ! parent_of i else x)")
        case True
        with unf obtain t0 where s: "SwapNode i (parent_of i) t = Inr t0"
          and r: "siftup_loop_unchecked x (parent_of i) t0 = Inr t1"
          by (auto split: sum.splits)
        from True have g: "\<not> \<not> in_range (heap t) i"
          and lt: "expires (heap t ! i)
              < expires (if in_range (heap t) (parent_of i) then heap t ! parent_of i else x)"
          by simp_all
        from "1.IH" [OF g lt s r] sw [OF s] show ?thesis by simp
      next
        case False
        with unf show ?thesis by (auto split: if_splits)
      qed
    qed
  qed
  have down: "\<And>x c n t y t1. siftdown_loop x c n t = Inr (y, t1)
      \<Longrightarrow> length (heap t1) = length (heap t)"
  proof -
    fix x c n t y t1
    show "siftdown_loop x c n t = Inr (y, t1) \<Longrightarrow> length (heap t1) = length (heap t)"
    proof (induction x c n t rule: siftdown_loop.induct)
      case (1 index child n t)
      define c where "c = (if child + 1 < n \<and> expires (heap t ! (child + 1)) < expires (heap t ! child)
                   then child + 1 else child)"
      show ?case
      proof (cases "child < n \<and> expires (heap t ! c) < expires (heap t ! index)")
        case True
        with "1.prems" obtain t0 where s: "SwapNode index c t = Inr t0"
          and r: "siftdown_loop c (left_child c) n t0 = Inr (y, t1)"
          and g: "\<not> (\<not> in_range (heap t) child \<or> \<not> in_range (heap t) index
                 \<or> (child + 1 < n \<and> \<not> in_range (heap t) (child + 1)))"
          by (subst (asm) siftdown_loop.simps)
            (auto simp: Let_def c_def split: if_splits sum.splits)
        from True have lt: "child < n" and ex: "expires (heap t ! c) < expires (heap t ! index)"
          by simp_all
        from "1.IH"[OF lt g c_def ex s r] sw[OF s] show ?thesis by simp
      next
        case False
        with "1.prems" show ?thesis
          by (subst (asm) siftdown_loop.simps)
            (auto simp: Let_def c_def split: if_splits)
      qed
    qed
  qed
  have dl: "\<And>x i t t1. del_unchecked x i t = Inr t1 \<Longrightarrow> heap t \<noteq> []
      \<Longrightarrow> length (heap t1) < length (heap t)"
    by (auto simp: del_unchecked_def siftdown_def siftup_unchecked_def
          split: if_splits sum.splits prod.splits dest!: sw up down)
  fix stray :: "nat \<Rightarrow> TimerNode" and clock :: "nat \<Rightarrow> TimeStamp" and k :: nat
    and fired :: "TimeoutCallBack list" and t t1 :: HeapTimer and node rest
  assume "heap t = node # rest" and "pop_unchecked (stray k) t = Inr t1"
  then have "length (heap t1) < length (heap t)"
    by (auto simp: pop_unchecked_def dest: dl)
  then show "((stray, clock, Suc k, fired @ [cb node], t1), stray, clock, k, fired, t)
      \<in> measure (\<lambda>(stray, clock, k, fired, t). length (heap t))" by simp
qed

declare tick_unchecked.simps [simp del]

text \<open>The node that such a read finds where the storage holds zeros.\<close>

definition zero_node :: TimerNode where
  "zero_node = \<lparr>node_id = 0, expires = 0, cb = 0\<rparr>"

section \<open>The status decision as the specification words it\<close>

text \<open>
  The status that \<open>make_response\<close> is specified to decide, the path it is specified to
  serve and the file status it is specified to hold before the headers are written,
  written down from the specification's steps 1 and 2 to be compared with the code.
\<close>

definition claimed_status :: "sys \<Rightarrow> HttpResponse \<Rightarrow> int" where
  "claimed_status env r =
     (case sys_stat env (srcDir r @ path r) of
        None \<Rightarrow> 404
      | Some s \<Rightarrow>
          if S_ISDIR (st_mode s) then 404
          else if st_mode s AND S_IROTH = 0 then 403
          else if code r = - 1 then 200
          else code r)"

definition claimed_path :: "sys \<Rightarrow> HttpResponse \<Rightarrow> string" where
  "claimed_path env r =
     (if claimed_status env r = 400 then ''/400.html''
      else if claimed_status env r = 403 then ''/403.html''
      else if claimed_status env r = 404 then ''/404.html''
      else path r)"

definition claimed_stat :: "sys \<Rightarrow> HttpResponse \<Rightarrow> stat" where
  "claimed_stat env r =
     (let first = (case sys_stat env (srcDir r @ path r) of None \<Rightarrow> mmFileStat r | Some s \<Rightarrow> s)
      in if claimed_status env r \<in> {400, 403, 404}
         then (case sys_stat env (srcDir r @ claimed_path env r) of None \<Rightarrow> first | Some s \<Rightarrow> s)
         else first)"

text \<open>
  A file system in which every path is a regular file of mode 0644 and length zero.
  \<open>mmap\<close> of length zero fails with \<open>EINVAL\<close>.
\<close>

definition empty_file_sys :: sys where
  "empty_file_sys =
     \<lparr>sys_stat = (\<lambda>p. Some \<lparr>st_mode = 0x81A4, st_size = 0\<rparr>),
      sys_open = (\<lambda>p. True),
      sys_mmap = (\<lambda>p n. if n = 0 then None else Some (replicate (nat n) (CHR ''a'')))\<rparr>"

section \<open>The accounting of the vectored write\<close>

text \<open>
  \<open>iov_[0]\<close> describes the readable region of the write buffer when its length is
  the number of readable bytes and, unless that is zero, its base is the read cursor.
  \<open>pending\<close> is the number of bytes the two \<open>iovec\<close>s still cover.
  \<open>big_file_conn\<close> is a connection whose response header is written and whose file
  is 100 bytes longer than 2 GiB.
\<close>

definition iov0_describes :: "HttpConn \<Rightarrow> bool" where
  "iov0_describes c =
     (unat (iov_len (iov0 c)) = ReadableBytes (writeBuff c)
      \<and> (iov_len (iov0 c) = 0 \<or> iov_base (iov0 c) = word_of_nat (Peek (writeBuff c))))"

definition pending :: "HttpConn \<Rightarrow> nat" where
  "pending c = unat (iov_len (iov0 c)) + unat (iov_len (iov1 c))"

definition big_file_conn :: HttpConn where
  "big_file_conn =
     (new_HttpConn 2 \<lparr>iov_base = 0, iov_len = 0\<rparr> \<lparr>iov_base = 0, iov_len = 2147483748\<rparr>)
       \<lparr>fd := 7, isClose := False\<rparr>"

section \<open>BlockQueue\<close>

text \<open>
  The queue under its mutex is a record. A consumer that waits on \<open>condConsumer_\<close>
  gives up the lock; when it wakes up it finds the queue as the other threads left it.
  The states a waiting consumer finds at its successive wake-ups are given as a list, and
  a \<open>pop\<close> that is still waiting when the list ends has the value \<open>None\<close>. For the
  timed \<open>pop\<close> each wake-up also carries what \<open>wait_for\<close> returned.
\<close>

record 'a BlockQueue =
  deq :: "'a list"
  queue_isClose :: bool
  capacity :: nat

datatype cv_status = no_timeout | timeout

definition BlockQueue_clear :: "'a BlockQueue \<Rightarrow> 'a BlockQueue" where
  "BlockQueue_clear q = q\<lparr>deq := []\<rparr>"

definition BlockQueue_Close :: "'a BlockQueue \<Rightarrow> 'a BlockQueue" where
  "BlockQueue_Close q = (BlockQueue_clear q)\<lparr>queue_isClose := True\<rparr>"

text \<open>The result of a \<open>pop\<close> that returns: the flag, the item stored if any, the queue.\<close>

fun BlockQueue_pop :: "'a BlockQueue \<Rightarrow> 'a BlockQueue list \<Rightarrow> (bool \<times> 'a option \<times> 'a BlockQueue) option" where
  "BlockQueue_pop q wakes =
     (case deq q of
        x # xs \<Rightarrow> Some (True, Some x, q\<lparr>deq := xs\<rparr>)
      | [] \<Rightarrow> (case wakes of [] \<Rightarrow> None | q1 # rest \<Rightarrow> BlockQueue_pop q1 rest))"

fun BlockQueue_pop_timed :: "'a BlockQueue \<Rightarrow> (cv_status \<times> 'a BlockQueue) list
    \<Rightarrow> (bool \<times> 'a option \<times> 'a BlockQueue) option" where
  "BlockQueue_pop_timed q wakes =
     (case deq q of
        x # xs \<Rightarrow> Some (True, Some x, q\<lparr>deq := xs\<rparr>)
      | [] \<Rightarrow>
          (case wakes of
             [] \<Rightarrow> None
           | (st, q1) # rest \<Rightarrow>
               if st = timeout then Some (False, None, q1)
               else if queue_isClose q1 then Some (False, None, q1)
               else BlockQueue_pop_timed q1 rest))"

declare BlockQueue_pop.simps [simp del]
declare BlockQueue_pop_timed.simps [simp del]

section \<open>WebServer: the user table\<close>

text \<open>
  Of the reactor the members that \<open>AddClient_\<close> and \<open>CloseConn_\<close> touch: the timeout,
  the timer, the descriptors registered with the multiplexer, the table \<open>users_\<close> and
  the static \<open>HttpConn::userCount\<close>. \<open>users_[fd]\<close> creates the entry with the default
  constructor when the key is absent; the members that the constructor leaves
  uninitialised are taken as zero. A connection is handed to \<open>CloseConn_\<close> as a pointer
  to its entry, \<open>&users_[fd]\<close>, so \<open>CloseConn_\<close> is given the key; the callers assert
  that the key is present. The timer callback bound in \<open>AddClient_\<close> is labelled with
  the descriptor whose connection it closes. \<open>SetFdNonblock\<close> changes flags of the
  descriptor only and is left out.
\<close>

record WebServer =
  timeoutMS :: int
  timer :: HeapTimer
  epoller :: "int set"
  users :: "int \<rightharpoonup> HttpConn"
  userCount :: int

text \<open>
  \<open>Epoller::AddFd\<close> and \<open>DelFd\<close> return whether \<open>epoll_ctl\<close> returned 0. What the
  kernel answers is the parameter \<open>ctl\<close>; a call that fails registers or removes
  nothing. The callers here ignore the result.
\<close>

definition AddFd :: "bool \<Rightarrow> int \<Rightarrow> int set \<Rightarrow> bool \<times> int set" where
  "AddFd ctl sockFd e =
     (if sockFd < 0 then (False, e) else if ctl then (True, insert sockFd e) else (False, e))"

definition DelFd :: "bool \<Rightarrow> int \<Rightarrow> int set \<Rightarrow> bool \<times> int set" where
  "DelFd ctl sockFd e =
     (if sockFd < 0 then (False, e) else if ctl then (True, e - {sockFd}) else (False, e))"

definition users_at :: "WebServer \<Rightarrow> int \<Rightarrow> HttpConn" where
  "users_at w k =
     (case users w k of
        Some c \<Rightarrow> c
      | None \<Rightarrow> new_HttpConn 0 \<lparr>iov_base = 0, iov_len = 0\<rparr> \<lparr>iov_base = 0, iov_len = 0\<rparr>)"

text \<open>
  \<open>AddClient_\<close> is given the clock reading of \<open>timer_->add\<close>, the node \<open>x\<close> that a
  read outside the heap vector finds during that \<open>add\<close>, and the kernel's answer
  to \<open>epoll_ctl\<close>; \<open>CloseConn_\<close> is given the kernel's answer.
\<close>

definition AddClient :: "int \<Rightarrow> TimeStamp \<Rightarrow> TimerNode \<Rightarrow> bool \<Rightarrow> WebServer \<Rightarrow> fault + WebServer" where
  "AddClient sockFd now x ctl w =
     (if \<not> 0 < sockFd then Inl AssertionFailed
      else (case HttpConn_init sockFd (userCount w, users_at w sockFd) of
              Inl f \<Rightarrow> Inl f
            | Inr (n, c) \<Rightarrow>
                (case (if 0 < timeoutMS w
                       then add_unchecked x sockFd (timeoutMS w) sockFd now (timer w)
                       else Inr (timer w)) of
                   Inl f \<Rightarrow> Inl f
                 | Inr t \<Rightarrow>
                     Inr (w\<lparr>users := (users w)(sockFd \<mapsto> c), userCount := n, timer := t,
                            epoller := snd (AddFd ctl sockFd (epoller w))\<rparr>))))"

definition CloseConn :: "int \<Rightarrow> bool \<Rightarrow> WebServer \<Rightarrow> fault + WebServer" where
  "CloseConn k ctl w =
     (case users w k of
        None \<Rightarrow> Inl AssertionFailed
      | Some c \<Rightarrow>
          let (n, c1) = Close (userCount w, c) in
          Inr (w\<lparr>epoller := snd (DelFd ctl (fd c) (epoller w)), users := (users w)(k \<mapsto> c1),
                 userCount := n\<rparr>))"

datatype server_op = AddClient_op int TimeStamp TimerNode bool | CloseConn_op int bool

fun apply_op :: "server_op \<Rightarrow> WebServer \<Rightarrow> fault + WebServer" where
  "apply_op (AddClient_op sockFd now x ctl) w = AddClient sockFd now x ctl w"
| "apply_op (CloseConn_op k ctl) w = CloseConn k ctl w"

fun run_ops :: "server_op list \<Rightarrow> WebServer \<Rightarrow> fault + WebServer" where
  "run_ops [] w = Inr w"
| "run_ops (x # xs) w = (case apply_op x w of Inl f \<Rightarrow> Inl f | Inr w1 \<Rightarrow> run_ops xs w1)"

text \<open>
  The connection for a descriptor is open when the table has an entry for it whose
  \<open>isClose_\<close> is false. \<open>added\<close> collects the descriptors that \<open>AddClient_\<close> was
  called for, and \<open>open_after b k ops\<close> tells whether the last of \<open>ops\<close> that names
  \<open>k\<close> is an \<open>AddClient_\<close> (\<open>b\<close> if none names it).
\<close>

definition is_open :: "WebServer \<Rightarrow> int \<Rightarrow> bool" where
  "is_open w k = (case users w k of None \<Rightarrow> False | Some c \<Rightarrow> \<not> isClose c)"

fun added :: "server_op list \<Rightarrow> int set" where
  "added [] = {}"
| "added (AddClient_op k now x ctl # xs) = insert k (added xs)"
| "added (CloseConn_op k ctl # xs) = added xs"

fun open_after :: "bool \<Rightarrow> int \<Rightarrow> server_op list \<Rightarrow> bool" where
  "open_after b k [] = b"
| "open_after b k (AddClient_op j now x ctl # xs) = open_after (if j = k then True else b) k xs"
| "open_after b k (CloseConn_op j ctl # xs) = open_after (if j = k then False else b) k xs"

definition new_WebServer :: "int \<Rightarrow> WebServer" where
  "new_WebServer ms =
     \<lparr>timeoutMS = ms, timer = new_HeapTimer, epoller = {}, users = Map.empty, userCount = 0\<rparr>"

text \<open>
  Two states of a server with a timeout of 60 seconds: after descriptor 5 was added and
  closed, and after 5 and 6 were added and 5 was closed, all at clock reading 0.
\<close>

definition closed_5 :: WebServer where
  "closed_5 =
     (new_WebServer 60000)
       \<lparr>timer := \<lparr>heap = [\<lparr>node_id = 5, expires = MS 60000, cb = 5\<rparr>], ref = [5 \<mapsto> 0]\<rparr>,
        users := [5 \<mapsto> (new_HttpConn 0 \<lparr>iov_base = 0, iov_len = 0\<rparr>
                                        \<lparr>iov_base = 0, iov_len = 0\<rparr>)\<lparr>fd := 5\<rparr>]\<rparr>"

definition closed_5_open_6 :: WebServer where
  "closed_5_open_6 =
     (new_WebServer 60000)
       \<lparr>timer := \<lparr>heap = [\<lparr>node_id = 5, expires = MS 60000, cb = 5\<rparr>,
                           \<lparr>node_id = 6, expires = MS 60000, cb = 6\<rparr>],
                   ref = [5 \<mapsto> 0, 6 \<mapsto> 1]\<rparr>,
        users := [5 \<mapsto> (new_HttpConn 0 \<lparr>iov_base = 0, iov_len = 0\<rparr>
                                        \<lparr>iov_base = 0, iov_len = 0\<rparr>)\<lparr>fd := 5\<rparr>,
                   6 \<mapsto> (new_HttpConn 0 \<lparr>iov_base = 0, iov_len = 0\<rparr>
                                        \<lparr>iov_base = 0, iov_len = 0\<rparr>)\<lparr>fd := 6, isClose := False\<rparr>],
        epoller := {6}, userCount := 1\<rparr>"

section \<open>A request that arrives in two reads\<close>

text \<open>
  A site with an index page and a page for status 400, a keep-alive request for \<open>/\<close>
  cut after its header line, and a connection whose read buffer holds what was read so
  far.
  \<open>one_call\<close> processes the whole request at once; \<open>first_call\<close> processes the
  first part, and \<open>second_call\<close> processes again after the second read has appended
  the rest to the read buffer. \<open>parsed\<close> is what the parser holds afterwards.
\<close>

definition site :: sys where
  "site =
     \<lparr>sys_stat = (\<lambda>p. if p = ''/srv/index.html'' then Some \<lparr>st_mode = 0x81A4, st_size = 5\<rparr>
                       else if p = ''/srv/400.html'' then Some \<lparr>st_mode = 0x81A4, st_size = 3\<rparr>
                       else None),
      sys_open = (\<lambda>p. p = ''/srv/index.html'' \<or> p = ''/srv/400.html''),
      sys_mmap = (\<lambda>p n. if p = ''/srv/index.html'' then Some ''hello''
                         else if p = ''/srv/400.html'' then Some ''bad''
                         else None)\<rparr>"

definition site_pages :: parse_env where
  "site_pages = \<lparr>DEFAULT_HTML = [''/index'', ''/welcome''], UserVerify = (\<lambda>u p l. False)\<rparr>"

definition request_head :: string where
  "request_head = ''GET / HTTP/1.1'' @ CRLF @ ''Connection: keep-alive'' @ CRLF"

definition request_tail :: string where
  "request_tail = CRLF"

definition conn_with :: "string \<Rightarrow> HttpConn" where
  "conn_with s =
     (new_HttpConn 0 \<lparr>iov_base = 0, iov_len = 0\<rparr> \<lparr>iov_base = 0, iov_len = 0\<rparr>)
       \<lparr>fd := 7, isClose := False, readBuff := Append s empty_Buffer\<rparr>"

definition one_call :: "fault + bool \<times> HttpConn" where
  "one_call = process site site_pages ''/srv'' (conn_with (request_head @ request_tail))"

definition first_call :: "fault + bool \<times> HttpConn" where
  "first_call = process site site_pages ''/srv'' (conn_with request_head)"

definition second_call :: "fault + bool \<times> HttpConn" where
  "second_call =
     (case first_call of
        Inl f \<Rightarrow> Inl f
      | Inr (b, c) \<Rightarrow>
          process site site_pages ''/srv'' (c\<lparr>readBuff := Append request_tail (readBuff c)\<rparr>))"

definition parsed :: "fault + bool \<times> HttpConn \<Rightarrow> (PARSE_STATE \<times> string \<times> string \<times> string option) option" where
  "parsed res =
     (case res of
        Inl f \<Rightarrow> None
      | Inr (b, c) \<Rightarrow>
          Some (state (request c), request_method (request c), request_path (request c),
                header (request c) ''Connection''))"

section \<open>The invariant of the timer heap\<close>

text \<open>
  The first \<open>n\<close> nodes of a vector are heap-ordered when no node expires before its
  parent. \<open>up_ok\<close> is that order with the edge into position \<open>i\<close> left open, as
  the loop of \<open>siftup_\<close> finds it; \<open>ordered_but\<close> leaves open the edges into and
  out of position \<open>k\<close>, as \<open>siftdown_\<close> finds it, and \<open>down_done\<close> says that
  no child of \<open>k\<close> expires before \<open>k\<close>. \<open>ref_ok\<close> says that \<open>ref_\<close> maps
  exactly the stored ids to their positions.
\<close>

definition heap_ordered :: "TimerNode list \<Rightarrow> nat \<Rightarrow> bool" where
  "heap_ordered h n = (\<forall>j. 0 < j \<longrightarrow> j < n \<longrightarrow> expires (h ! ((j - 1) div 2)) \<le> expires (h ! j))"

definition up_ok :: "TimerNode list \<Rightarrow> nat \<Rightarrow> nat \<Rightarrow> bool" where
  "up_ok h n i =
     ((\<forall>j. 0 < j \<longrightarrow> j < n \<longrightarrow> j \<noteq> i \<longrightarrow> expires (h ! ((j - 1) div 2)) \<le> expires (h ! j))
      \<and> (\<forall>j. 0 < j \<longrightarrow> j < n \<longrightarrow> (j - 1) div 2 = i \<longrightarrow> 0 < i
             \<longrightarrow> expires (h ! ((i - 1) div 2)) \<le> expires (h ! j)))"

definition ordered_but :: "TimerNode list \<Rightarrow> nat \<Rightarrow> nat \<Rightarrow> bool" where
  "ordered_but h n k =
     ((\<forall>j. 0 < j \<longrightarrow> j < n \<longrightarrow> j \<noteq> k \<longrightarrow> (j - 1) div 2 \<noteq> k
            \<longrightarrow> expires (h ! ((j - 1) div 2)) \<le> expires (h ! j))
      \<and> (\<forall>j. 0 < j \<longrightarrow> j < n \<longrightarrow> (j - 1) div 2 = k \<longrightarrow> 0 < k
             \<longrightarrow> expires (h ! ((k - 1) div 2)) \<le> expires (h ! j)))"

definition down_done :: "TimerNode list \<Rightarrow> nat \<Rightarrow> nat \<Rightarrow> bool" where
  "down_done h n k =
     (\<forall>j. 0 < j \<longrightarrow> j < n \<longrightarrow> (j - 1) div 2 = k \<longrightarrow> expires (h ! k) \<le> expires (h ! j))"

definition ref_ok :: "HeapTimer \<Rightarrow> bool" where
  "ref_ok t =
     ((\<forall>i < length (heap t). ref t (node_id (heap t ! i)) = Some i)
      \<and> (\<forall>k j. ref t k = Some j \<longrightarrow> j < length (heap t) \<and> node_id (heap t ! j) = k))"

definition timer_inv :: "HeapTimer \<Rightarrow> bool" where
  "timer_inv t =
     (length (heap t) \<le> max_size \<and> heap_ordered (heap t) (length (heap t)) \<and> ref_ok t)"

text \<open>
  Sequences of timer operations on the program as it is built. Each operation carries
  the clock readings it gets and the nodes that its reads outside the vector find.
  \<open>adjusts_later\<close> says that every \<open>adjust\<close> of a sequence gives its node a
  deadline that is not earlier than the one it has when the \<open>adjust\<close> runs.
\<close>

datatype timer_op =
    Add_op TimerNode int int TimeoutCallBack TimeStamp
  | Adjust_op int int TimeStamp
  | DoWork_op TimerNode int
  | Tick_op "nat \<Rightarrow> TimerNode" "nat \<Rightarrow> TimeStamp" nat

fun timer_step :: "timer_op \<Rightarrow> HeapTimer \<Rightarrow> fault + HeapTimer" where
  "timer_step (Add_op x i timeOut c now) t = add_unchecked x i timeOut c now t"
| "timer_step (Adjust_op i newExpires now) t = adjust i newExpires now t"
| "timer_step (DoWork_op x i) t =
     (case doWork_unchecked x i t of Inl f \<Rightarrow> Inl f | Inr (fired, t1) \<Rightarrow> Inr t1)"
| "timer_step (Tick_op stray clock k) t =
     (case tick_unchecked stray clock k [] t of Inl f \<Rightarrow> Inl f | Inr (fired, k1, t1) \<Rightarrow> Inr t1)"

fun later :: "timer_op \<Rightarrow> HeapTimer \<Rightarrow> bool" where
  "later (Adjust_op i newExpires now) t =
     (case ref t i of None \<Rightarrow> True | Some k \<Rightarrow> expires (heap t ! k) \<le> now + MS newExpires)"
| "later x t = True"

fun timer_run :: "timer_op list \<Rightarrow> HeapTimer \<Rightarrow> fault + HeapTimer" where
  "timer_run [] t = Inr t"
| "timer_run (x # xs) t = (case timer_step x t of Inl f \<Rightarrow> Inl f | Inr t1 \<Rightarrow> timer_run xs t1)"

fun adjusts_later :: "timer_op list \<Rightarrow> HeapTimer \<Rightarrow> bool" where
  "adjusts_later [] t = True"
| "adjusts_later (x # xs) t =
     (later x t \<and> (case timer_step x t of Inl f \<Rightarrow> True | Inr t1 \<Rightarrow> adjusts_later xs t1))"

text \<open>
  A timer with one node, due at 1000 ms, the same with a second node due at 2000 ms, and
  the timer that is left when the first node is removed again. \<open>three_ops\<close> are the
  operations that lead there from a new timer, at clock reading 0 and with zeros around
  the vector.
\<close>

definition one_node :: HeapTimer where
  "one_node = \<lparr>heap = [\<lparr>node_id = 5, expires = MS 1000, cb = 5\<rparr>], ref = [5 \<mapsto> 0]\<rparr>"

definition two_nodes :: HeapTimer where
  "two_nodes =
     \<lparr>heap = [\<lparr>node_id = 5, expires = MS 1000, cb = 5\<rparr>,
              \<lparr>node_id = 6, expires = MS 2000, cb = 6\<rparr>],
      ref = [5 \<mapsto> 0, 6 \<mapsto> 1]\<rparr>"

definition node_6 :: HeapTimer where
  "node_6 = \<lparr>heap = [\<lparr>node_id = 6, expires = MS 2000, cb = 6\<rparr>], ref = [6 \<mapsto> 0]\<rparr>"

definition three_ops :: "timer_op list" where
  "three_ops = [Add_op zero_node 5 1000 5 0, Add_op zero_node 6 2000 6 0, DoWork_op zero_node 5]"

chapter \<open>Properties\<close>

section \<open>Integer conversions\<close>

lemma size_t_to_int_mod:
  "size_t_to_int w = (uint w + 2147483648) mod 4294967296 - 2147483648"
proof -
  have "sint (word_of_int (uint w) :: 32 word)
        = (uint w + 2 ^ (LENGTH(32) - 1)) mod 2 ^ LENGTH(32) - 2 ^ (LENGTH(32) - 1)"
    by (rule int_word_sint)
  then show ?thesis by (simp add: size_t_to_int_def)
qed

lemma size_t_to_int_small:
  assumes "unat w < 2147483648"
  shows "size_t_to_int w = int (unat w)"
proof -
  from assms have "int (unat w) < int 2147483648" by (simp only: of_nat_less_iff)
  then have u: "uint w < 2147483648" by simp
  have "0 \<le> uint w" by simp
  with u have "(uint w + 2147483648) mod 4294967296 = uint w + 2147483648"
    by (intro mod_pos_pos_trivial) linarith+
  then show ?thesis by (simp add: size_t_to_int_mod)
qed

lemma size_t_to_int_count:
  assumes "- 2147483648 \<le> d" and "d < 2147483648"
  shows "size_t_to_int (word_of_int d) = d"
proof -
  have "uint (word_of_int d :: 64 word) = d mod 18446744073709551616"
    by (simp add: uint_word_of_int)
  then have "size_t_to_int (word_of_int d)
      = (d mod 18446744073709551616 + 2147483648) mod 4294967296 - 2147483648"
    by (simp add: size_t_to_int_mod)
  also have "(d mod 18446744073709551616 + 2147483648) mod 4294967296
      = (d + 2147483648) mod 4294967296"
  proof -
    have "(d mod 18446744073709551616) mod 4294967296 = d mod 4294967296"
      by (rule mod_mod_cancel) simp
    then show ?thesis by (metis mod_add_left_eq)
  qed
  also have "(d + 2147483648) mod 4294967296 = d + 2147483648"
    using assms by (intro mod_pos_pos_trivial) linarith+
  finally show ?thesis by simp
qed

section \<open>Closing a connection\<close>

text \<open>
  C9. \<open>HttpConn::Close\<close> is idempotent with respect to the shared user count: after the
  first \<open>Close\<close> the connection is marked closed, and a further \<open>Close\<close> changes neither
  \<open>userCount\<close> nor the flag (nor anything else of the connection).
\<close>

theorem Close_idempotent:
  "Close (Close (n, c)) = Close (n, c)
   \<and> isClose (snd (Close (n, c)))
   \<and> fst (Close (n, c)) = (if isClose c then n else n - 1)"
  by (simp add: Close_def UnmapFile_def Let_def split: option.splits)

section \<open>The timer heap\<close>

lemma parent_of_root: "parent_of 0 = 2 ^ 63 - 1"
  by (simp add: parent_of_def)

lemma parent_of_root_outside: "\<not> in_range xs (parent_of 0)"
  unfolding parent_of_root by (simp add: in_range_def max_size_def)

lemma siftup_loop_root: "siftup_loop 0 t = Inl OutOfBounds"
  by (subst siftup_loop.simps) (simp add: parent_of_root_outside)

text \<open>
  C10. Every index used by \<open>siftup_\<close> stays inside the heap vector. This is what the
  code intends (its loop is commented as running while the parent exists), and it is not
  what it does: at \<open>i = 0\<close> the parent index \<open>(i - 1) / 2\<close> is computed in unsigned
  arithmetic and is \<open>2^63 - 1\<close>, the loop condition \<open>parent >= 0\<close> holds, and
  \<open>heap_[parent]\<close> is read outside the vector. So \<open>siftup_(0)\<close> never returns
  normally: on a heap with a root it reads out of bounds, on an empty heap its assertion
  fails.
\<close>

theorem siftup_root_out_of_bounds:
  "siftup 0 t = (if in_range (heap t) 0 then Inl OutOfBounds else Inl AssertionFailed)"
  by (simp add: siftup_def siftup_loop_root)

text \<open>
  Two calls reach \<open>siftup_(0)\<close> and, with every access checked, stop there. The
  first \<open>add\<close> on an empty timer pushes the node and sifts it up from index 0.
  \<open>del_\<close> on the root of a heap of two swaps the tail into the root, the sift-down
  over the one remaining node does not move it, and \<open>siftup_(0)\<close> follows. An
  \<open>add\<close> of a node that stays below the root does not reach it.
\<close>

lemma add_to_empty_timer_out_of_bounds:
  "add i timeOut c now (clear t) = (if 0 \<le> i then Inl OutOfBounds else Inl AssertionFailed)"
  by (simp add: add_def clear_def siftup_def in_range_def max_size_def Let_def siftup_loop_root)

lemma add_second_node: "add 6 2000 6 0 one_node = Inr two_nodes"
proof -
  have p: "parent_of (Suc 0) = 0" by (simp add: parent_of_def)
  show ?thesis
    by (simp add: add_def one_node_def two_nodes_def siftup_def siftup_loop.simps [of "Suc 0"] p
        in_range_def max_size_def MS_def Let_def)
qed

lemma pop_two_nodes_out_of_bounds: "pop two_nodes = Inl OutOfBounds"
  by (simp add: pop_def del_def two_nodes_def SwapNode_def siftdown_def
      siftdown_loop.simps [of 0] left_child_def siftup_def siftup_loop_root in_range_def
      max_size_def Let_def)

text \<open>
  What \<open>GetNextTick\<close> returns after its \<open>tick\<close>: \<open>-1\<close> for an empty heap, and for
  a heap with a root the milliseconds from the clock reading to the root's deadline,
  converted to \<open>size_t\<close> and back to \<open>int\<close>, whatever their sign.
\<close>

lemma GetNextTick_unclamped:
  assumes "tick clock k [] t = Inr (fired, k1, t1)"
  shows "GetNextTick clock k t =
     (case heap t1 of
        [] \<Rightarrow> Inr (- 1, fired, k1, t1)
      | node # rest \<Rightarrow>
          Inr (size_t_to_int (word_of_int (duration_cast_MS (expires node - clock k1))),
               fired, Suc k1, t1))"
proof -
  have "size_t_to_int (- 1) = - 1" using size_t_to_int_count [of "- 1"] by simp
  with assms show ?thesis
    by (simp add: GetNextTick_def Let_def split: list.splits)
qed

text \<open>
  C3. \<open>GetNextTick\<close> runs \<open>tick\<close> and returns \<open>max(0, root.deadline - now)\<close>
  milliseconds, or \<open>-1\<close> for an empty heap, and never another negative number. The
  clamp \<open>if(res < 0) res = 0\<close> is applied to a \<open>size_t\<close> and never fires. With one
  node due at 1000 ms, the clock at 999 ms when \<open>tick\<close> reads it (one millisecond left,
  nothing fires) and at 1005 ms when \<open>GetNextTick\<close> reads it again, the result is
  \<open>-5\<close> where the specification gives \<open>0\<close>.
\<close>

theorem GetNextTick_returns_negative:
  "GetNextTick (\<lambda>k. if k = 0 then MS 999 else MS 1005) 0
     \<lparr>heap = [\<lparr>node_id = 5, expires = MS 1000, cb = 5\<rparr>], ref = [5 \<mapsto> 0]\<rparr>
   = Inr (- 5, [], 2, \<lparr>heap = [\<lparr>node_id = 5, expires = MS 1000, cb = 5\<rparr>], ref = [5 \<mapsto> 0]\<rparr>)"
  by (simp add: GetNextTick_def tick.simps MS_def duration_cast_MS_def size_t_to_int_def)

subsection \<open>What the operations preserve when they return\<close>

text \<open>
  In the program as it is built the operations keep the heap in order: each of
  \<open>add\<close>, \<open>adjust\<close> (to a deadline that is not earlier), \<open>doWork\<close> and
  \<open>tick\<close> that returns leaves the vector heap-ordered and \<open>ref_\<close> consistent, so
  the root holds the minimum deadline and \<open>ref_\<close> maps exactly the stored ids to
  their positions. The read of \<open>siftup_\<close> outside the vector does not change that:
  when the node it finds is not due later than the root the loop ends, as it should at
  the root, and otherwise the assertion of \<open>SwapNode_\<close> fails.
\<close>

lemma parent_of_eq: "0 < i \<Longrightarrow> i < 2 ^ 63 \<Longrightarrow> parent_of i = (i - 1) div 2"
proof -
  assume nz: "0 < i" and i: "i < 2 ^ 63"
  then have e: "i + 2 ^ 64 - 1 = (i - 1) + 2 ^ 64" by simp
  have "(i - 1 + 2 ^ 64) mod 2 ^ 64 = (i - 1) mod (2 ^ 64 :: nat)" by (rule mod_add_self2)
  also have "\<dots> = i - 1" using i by simp
  finally show ?thesis unfolding parent_of_def e by simp
qed

lemma in_range_bound: "in_range xs i \<Longrightarrow> i < 2 ^ 63 - 1"
  by (simp add: in_range_def max_size_def)

lemma ref_ok_inj:
  "ref_ok t \<Longrightarrow> i < length (heap t) \<Longrightarrow> j < length (heap t)
   \<Longrightarrow> node_id (heap t ! i) = node_id (heap t ! j) \<Longrightarrow> i = j"
  by (metis option.inject ref_ok_def)

lemma SwapNode_heap:
  "SwapNode i j t = Inr t1 \<Longrightarrow> heap t1 = (heap t)[i := heap t ! j, j := heap t ! i]"
  by (auto simp: SwapNode_def Let_def split: if_splits)

lemma SwapNode_range:
  "SwapNode i j t = Inr t1 \<Longrightarrow> in_range (heap t) i \<and> in_range (heap t) j"
  by (auto simp: SwapNode_def Let_def split: if_splits)

lemma SwapNode_ref_ok:
  assumes s: "SwapNode i j t = Inr t1" and r: "ref_ok t"
  shows "ref_ok t1"
proof -
  from s have i: "i < length (heap t)" and j: "j < length (heap t)"
    by (auto simp: SwapNode_def in_range_def split: if_splits)
  let ?h = "(heap t)[i := heap t ! j, j := heap t ! i]"
  from s have h1: "heap t1 = ?h"
    and r1: "ref t1 = ((ref t)(node_id (?h ! i) \<mapsto> i))(node_id (?h ! j) \<mapsto> j)"
    by (auto simp: SwapNode_def Let_def split: if_splits)
  have hi: "?h ! i = heap t ! j" using i j by (cases "i = j") simp_all
  have hj: "?h ! j = heap t ! i" using i j by simp
  have ho: "\<And>p. p \<noteq> i \<Longrightarrow> p \<noteq> j \<Longrightarrow> ?h ! p = heap t ! p" by simp
  have inj: "\<And>a b. a < length (heap t) \<Longrightarrow> b < length (heap t)
      \<Longrightarrow> node_id (heap t ! a) = node_id (heap t ! b) \<Longrightarrow> a = b"
    using r by (rule ref_ok_inj)
  show ?thesis unfolding ref_ok_def
  proof (intro conjI allI impI)
    fix p assume p: "p < length (heap t1)"
    then have p': "p < length (heap t)" by (simp add: h1)
    show "ref t1 (node_id (heap t1 ! p)) = Some p"
    proof (cases "p = j")
      case True
      then show ?thesis by (simp add: r1 h1)
    next
      case pj: False
      show ?thesis
      proof (cases "p = i")
        case True
        with pj have "node_id (heap t ! j) \<noteq> node_id (heap t ! i)" using inj i j by metis
        with True pj show ?thesis by (simp add: r1 h1 hi hj)
      next
        case pi: False
        from pi pj p' i j inj have "node_id (heap t ! p) \<noteq> node_id (heap t ! i)"
          "node_id (heap t ! p) \<noteq> node_id (heap t ! j)" by metis+
        moreover from r p' have "ref t (node_id (heap t ! p)) = Some p" by (simp add: ref_ok_def)
        ultimately show ?thesis using pi pj by (simp add: r1 h1 hi hj)
      qed
    qed
  next
    fix k q assume kq: "ref t1 k = Some q"
    show "q < length (heap t1)"
    proof (cases "k = node_id (?h ! j)")
      case True
      with kq have "q = j" by (simp add: r1)
      with j show ?thesis by (simp add: h1)
    next
      case kj: False
      show ?thesis
      proof (cases "k = node_id (?h ! i)")
        case True
        with kq kj have "q = i" by (simp add: r1)
        with i show ?thesis by (simp add: h1)
      next
        case False
        with kj kq have "ref t k = Some q" by (simp add: r1)
        with r show ?thesis by (simp add: ref_ok_def h1)
      qed
    qed
  next
    fix k q assume kq: "ref t1 k = Some q"
    show "node_id (heap t1 ! q) = k"
    proof (cases "k = node_id (?h ! j)")
      case True
      with kq have "q = j" by (simp add: r1)
      with True show ?thesis by (simp add: h1)
    next
      case kj: False
      show ?thesis
      proof (cases "k = node_id (?h ! i)")
        case True
        with kq kj have "q = i" by (simp add: r1)
        with True show ?thesis by (simp add: h1)
      next
        case ki: False
        with kj kq have o: "ref t k = Some q" by (simp add: r1)
        with r have q: "q < length (heap t)" "node_id (heap t ! q) = k" by (simp_all add: ref_ok_def)
        from ki kj q have "q \<noteq> i" "q \<noteq> j" unfolding hi hj by auto
        with q show ?thesis by (simp add: h1)
      qed
    qed
  qed
qed

lemma up_ok_swap:
  assumes u: "up_ok h n i" and i0: "0 < i" and "i < n" and "n \<le> length h"
    and lt: "expires (h ! i) < expires (h ! ((i - 1) div 2))"
  shows "up_ok (h[i := h ! ((i - 1) div 2), (i - 1) div 2 := h ! i]) n ((i - 1) div 2)"
proof -
  define p where "p = (i - 1) div 2"
  define g where "g = h[i := h ! p, p := h ! i]"
  from i0 have pi: "p < i" by (simp add: p_def)
  with assms have il: "i < length h" and pl: "p < length h" by simp_all
  have gi: "g ! i = h ! p" using pi il by (simp add: g_def)
  have gp: "g ! p = h ! i" using pl il by (simp add: g_def)
  have go: "\<And>q. q \<noteq> i \<Longrightarrow> q \<noteq> p \<Longrightarrow> g ! q = h ! q" by (simp add: g_def)
  from u have u1: "\<And>j. 0 < j \<Longrightarrow> j < n \<Longrightarrow> j \<noteq> i \<Longrightarrow> expires (h ! ((j - 1) div 2)) \<le> expires (h ! j)"
    and u2: "\<And>j. 0 < j \<Longrightarrow> j < n \<Longrightarrow> (j - 1) div 2 = i \<Longrightarrow> expires (h ! p) \<le> expires (h ! j)"
    using i0 by (auto simp: up_ok_def p_def)
  have pe: "(i - 1) div 2 = p" by (simp add: p_def)
  from lt have lt': "expires (h ! i) < expires (h ! p)" unfolding pe .
  have "up_ok g n p" unfolding up_ok_def
  proof (intro conjI allI impI)
    fix j assume j: "0 < j" "j < n" "j \<noteq> p"
    show "expires (g ! ((j - 1) div 2)) \<le> expires (g ! j)"
    proof (cases "j = i")
      case True
      show ?thesis unfolding True pe gi gp using lt' by simp
    next
      case ji: False
      consider "(j - 1) div 2 = i" | "(j - 1) div 2 = p" | "(j - 1) div 2 \<noteq> i" "(j - 1) div 2 \<noteq> p"
        by blast
      then show ?thesis
      proof cases
        case 1
        from u2 [OF j(1) j(2) 1] have "expires (h ! p) \<le> expires (h ! j)" .
        then show ?thesis unfolding 1 gi go [OF ji j(3)] .
      next
        case 2
        from u1 [OF j(1) j(2) ji] have "expires (h ! p) \<le> expires (h ! j)" unfolding 2 .
        with lt' show ?thesis unfolding 2 gp go [OF ji j(3)] by simp
      next
        case 3
        from u1 [OF j(1) j(2) ji] show ?thesis unfolding go [OF 3] go [OF ji j(3)] .
      qed
    qed
  next
    fix j assume j: "0 < j" "j < n" "(j - 1) div 2 = p" "0 < p"
    from j(4) have ppp: "(p - 1) div 2 < p" by arith
    with pi have e0: "g ! ((p - 1) div 2) = h ! ((p - 1) div 2)" by (simp add: go)
    from pi \<open>i < n\<close> have pn: "p < n" by simp
    from pi have "p \<noteq> i" by simp
    from u1 [OF j(4) pn this] have a: "expires (h ! ((p - 1) div 2)) \<le> expires (h ! p)" .
    show "expires (g ! ((p - 1) div 2)) \<le> expires (g ! j)"
    proof (cases "j = i")
      case True
      show ?thesis unfolding e0 True gi using a .
    next
      case False
      from j(1) j(3) have jp: "j \<noteq> p" by arith
      from u1 [OF j(1) j(2) False] have "expires (h ! p) \<le> expires (h ! j)" unfolding j(3) .
      with a show ?thesis unfolding e0 go [OF False jp] by simp
    qed
  qed
  then show ?thesis unfolding g_def p_def .
qed

lemma up_ok_ordered:
  assumes "up_ok h n i" and "0 < i \<longrightarrow> expires (h ! ((i - 1) div 2)) \<le> expires (h ! i)"
  shows "heap_ordered h n"
  using assms unfolding up_ok_def heap_ordered_def by metis

lemma siftup_loop_ordered:
  "siftup_loop_unchecked x i t = Inr t1 \<Longrightarrow> i < n \<Longrightarrow> n \<le> length (heap t) \<Longrightarrow> up_ok (heap t) n i
   \<Longrightarrow> ref_ok t
   \<Longrightarrow> heap_ordered (heap t1) n \<and> ref_ok t1 \<and> length (heap t1) = length (heap t)
       \<and> (\<forall>q. n \<le> q \<longrightarrow> heap t1 ! q = heap t ! q)"
proof (induction x i t rule: siftup_loop_unchecked.induct)
  case (1 x i t)
  note unf = "1.prems"(1) [unfolded siftup_loop_unchecked.simps [of x i t]]
  from unf have rng: "in_range (heap t) i" by (simp split: if_splits)
  then have ib: "i < 2 ^ 63" by (simp add: in_range_def max_size_def)
  show ?case
  proof (cases "expires (heap t ! i)
      < expires (if in_range (heap t) (parent_of i) then heap t ! parent_of i else x)")
    case True
    with unf rng obtain t0 where s: "SwapNode i (parent_of i) t = Inr t0"
      and r: "siftup_loop_unchecked x (parent_of i) t0 = Inr t1"
      by (auto split: sum.splits)
    from SwapNode_range [OF s] have prng: "in_range (heap t) (parent_of i)" by simp
    have i0: "0 < i"
    proof (rule ccontr)
      assume "\<not> 0 < i"
      with prng show False by (simp add: parent_of_root_outside)
    qed
    from i0 ib have p: "parent_of i = (i - 1) div 2" by (rule parent_of_eq)
    have g: "\<not> \<not> in_range (heap t) i" using rng by simp
    from s have h0: "heap t0 = (heap t)[i := heap t ! ((i - 1) div 2), (i - 1) div 2 := heap t ! i]"
      by (simp add: SwapNode_heap p)
    from i0 "1.prems"(2) have pn: "parent_of i < n" unfolding p by arith
    from "1.prems"(3) have n0: "n \<le> length (heap t0)" by (simp add: h0)
    from True prng have "expires (heap t ! i) < expires (heap t ! ((i - 1) div 2))"
      by (simp add: p)
    from up_ok_swap [OF "1.prems"(4) i0 "1.prems"(2,3) this]
    have u0: "up_ok (heap t0) n (parent_of i)" by (simp add: h0 p)
    from SwapNode_ref_ok [OF s "1.prems"(5)] have r0: "ref_ok t0" .
    from "1.IH" [OF g True s r pn n0 u0 r0]
    have ih: "heap_ordered (heap t1) n" "ref_ok t1" "length (heap t1) = length (heap t0)"
      "\<forall>q. n \<le> q \<longrightarrow> heap t1 ! q = heap t0 ! q" by simp_all
    have "\<And>q. n \<le> q \<Longrightarrow> heap t0 ! q = heap t ! q"
      using "1.prems"(2) pn by (simp add: h0 p)
    with ih show ?thesis by (simp add: h0)
  next
    case False
    with unf rng have e: "t1 = t" by simp
    have "0 < i \<longrightarrow> expires (heap t ! ((i - 1) div 2)) \<le> expires (heap t ! i)"
    proof
      assume i0: "0 < i"
      from i0 ib have p: "parent_of i = (i - 1) div 2" by (rule parent_of_eq)
      from i0 have "(i - 1) div 2 < i" by arith
      with rng have "in_range (heap t) (parent_of i)" by (simp add: p in_range_def)
      with False show "expires (heap t ! ((i - 1) div 2)) \<le> expires (heap t ! i)"
        by (simp add: p)
    qed
    with "1.prems"(4) have "heap_ordered (heap t) n" by (rule up_ok_ordered)
    with e "1.prems"(5) show ?thesis by simp
  qed
qed

lemma ordered_but_swap:
  assumes ob: "ordered_but h n k" and c0: "0 < c" and cn: "c < n" and pc: "(c - 1) div 2 = k"
    and nl: "n \<le> length h"
    and mn: "\<And>j. 0 < j \<Longrightarrow> j < n \<Longrightarrow> (j - 1) div 2 = k \<Longrightarrow> expires (h ! c) \<le> expires (h ! j)"
    and lt: "expires (h ! c) < expires (h ! k)"
  shows "ordered_but (h[k := h ! c, c := h ! k]) n c"
    and "expires ((h[k := h ! c, c := h ! k]) ! ((c - 1) div 2)) \<le> expires ((h[k := h ! c, c := h ! k]) ! c)"
proof -
  define g where "g = h[k := h ! c, c := h ! k]"
  from c0 pc have kc: "k < c" by arith
  with cn nl have cl: "c < length h" and kl: "k < length h" by simp_all
  have gk: "g ! k = h ! c" using kc kl by (simp add: g_def)
  have gc: "g ! c = h ! k" using cl by (simp add: g_def)
  have go: "\<And>q. q \<noteq> k \<Longrightarrow> q \<noteq> c \<Longrightarrow> g ! q = h ! q" by (simp add: g_def)
  from ob have a: "\<And>j. 0 < j \<Longrightarrow> j < n \<Longrightarrow> j \<noteq> k \<Longrightarrow> (j - 1) div 2 \<noteq> k
      \<Longrightarrow> expires (h ! ((j - 1) div 2)) \<le> expires (h ! j)"
    and b: "\<And>j. 0 < j \<Longrightarrow> j < n \<Longrightarrow> (j - 1) div 2 = k \<Longrightarrow> 0 < k
      \<Longrightarrow> expires (h ! ((k - 1) div 2)) \<le> expires (h ! j)"
    by (auto simp: ordered_but_def)
  have "ordered_but g n c" unfolding ordered_but_def
  proof (intro conjI allI impI)
    fix j assume j: "0 < j" "j < n" "j \<noteq> c" "(j - 1) div 2 \<noteq> c"
    show "expires (g ! ((j - 1) div 2)) \<le> expires (g ! j)"
    proof (cases "j = k")
      case True
      with j(1) have k0: "0 < k" by simp
      then have "(k - 1) div 2 < k" by arith
      with kc have e0: "g ! ((k - 1) div 2) = h ! ((k - 1) div 2)" by (simp add: go)
      from b [OF c0 cn pc k0] show ?thesis unfolding True e0 gk .
    next
      case jk: False
      show ?thesis
      proof (cases "(j - 1) div 2 = k")
        case True
        from mn [OF j(1) j(2) True] show ?thesis unfolding True gk go [OF jk j(3)] .
      next
        case False
        from a [OF j(1) j(2) jk False] show ?thesis unfolding go [OF False j(4)] go [OF jk j(3)] .
      qed
    qed
  next
    fix j assume j: "0 < j" "j < n" "(j - 1) div 2 = c" "0 < c"
    from j(1) j(3) have cj: "c < j" by arith
    with kc have jk: "j \<noteq> k" and jc: "j \<noteq> c" by simp_all
    from kc j(3) have "(j - 1) div 2 \<noteq> k" by simp
    from a [OF j(1) j(2) jk this] have "expires (h ! c) \<le> expires (h ! j)" unfolding j(3) .
    then show "expires (g ! ((c - 1) div 2)) \<le> expires (g ! j)" unfolding pc gk go [OF jk jc] .
  qed
  then show "ordered_but (h[k := h ! c, c := h ! k]) n c" unfolding g_def .
  from lt have "expires (g ! ((c - 1) div 2)) \<le> expires (g ! c)" unfolding pc gk gc by simp
  then show "expires ((h[k := h ! c, c := h ! k]) ! ((c - 1) div 2))
      \<le> expires ((h[k := h ! c, c := h ! k]) ! c)" unfolding g_def .
qed

lemma ordered_but_ordered:
  assumes "ordered_but h n y" and "down_done h n y"
    and "0 < y \<longrightarrow> expires (h ! ((y - 1) div 2)) \<le> expires (h ! y)"
  shows "heap_ordered h n"
  using assms unfolding ordered_but_def down_done_def heap_ordered_def by metis

lemma ordered_but_up_ok:
  assumes "ordered_but h n y" and "down_done h n y"
  shows "up_ok h n y"
  unfolding up_ok_def
proof (intro conjI allI impI)
  fix j assume j: "0 < j" "j < n" "j \<noteq> y"
  show "expires (h ! ((j - 1) div 2)) \<le> expires (h ! j)"
  proof (cases "(j - 1) div 2 = y")
    case True
    with assms(2) j show ?thesis unfolding down_done_def by metis
  next
    case False
    with assms(1) j show ?thesis unfolding ordered_but_def by metis
  qed
next
  fix j assume "0 < j" "j < n" "(j - 1) div 2 = y" "0 < y"
  with assms(1) show "expires (h ! ((y - 1) div 2)) \<le> expires (h ! j)"
    unfolding ordered_but_def by metis
qed

lemma children: "0 < (j::nat) \<Longrightarrow> (j - 1) div 2 = k \<Longrightarrow> j = 2 * k + 1 \<or> j = 2 * k + 2"
  by arith

lemma siftdown_loop_ordered:
  "siftdown_loop k child n t = Inr (y, t1) \<Longrightarrow> child = 2 * k + 1 \<Longrightarrow> n \<le> length (heap t)
   \<Longrightarrow> ordered_but (heap t) n k \<Longrightarrow> ref_ok t
   \<Longrightarrow> ordered_but (heap t1) n y \<and> down_done (heap t1) n y \<and> ref_ok t1
       \<and> length (heap t1) = length (heap t)
       \<and> (\<forall>q. n \<le> q \<longrightarrow> heap t1 ! q = heap t ! q)
       \<and> k \<le> y \<and> (y = k \<longrightarrow> t1 = t)
       \<and> (y \<noteq> k \<longrightarrow> 0 < y \<and> expires (heap t1 ! ((y - 1) div 2)) \<le> expires (heap t1 ! y))"
proof (induction k child n t arbitrary: y t1 rule: siftdown_loop.induct)
  case (1 index child n t)
  note ch = "1.prems"(2)
  note unf = "1.prems"(1) [unfolded siftdown_loop.simps [of index child n t]]
  show ?case
  proof (cases "child < n")
    case False
    with unf have e: "y = index" "t1 = t" by simp_all
    have "down_done (heap t) n index" unfolding down_done_def
    proof (intro allI impI)
      fix j assume "0 < j" "j < n" "(j - 1) div 2 = index"
      with False ch have False by arith
      then show "expires (heap t ! index) \<le> expires (heap t ! j)" ..
    qed
    with e "1.prems"(4,5) show ?thesis by simp
  next
    case cn: True
    from unf cn have rng: "\<not> (\<not> in_range (heap t) child \<or> \<not> in_range (heap t) index
           \<or> (child + 1 < n \<and> \<not> in_range (heap t) (child + 1)))"
      by (simp split: if_splits)
    define c where "c = (if child + 1 < n \<and> expires (heap t ! (child + 1)) < expires (heap t ! child)
                   then child + 1 else child)"
    have c0: "0 < c" and cn': "c < n" and pc: "(c - 1) div 2 = index"
      using cn ch by (auto simp: c_def)
    have mn: "\<And>j. 0 < j \<Longrightarrow> j < n \<Longrightarrow> (j - 1) div 2 = index
        \<Longrightarrow> expires (heap t ! c) \<le> expires (heap t ! j)"
    proof -
      fix j assume j: "0 < j" "j < n" "(j - 1) div 2 = index"
      from children [OF j(1) j(3)] ch have "j = child \<or> j = child + 1" by simp
      with j(2) show "expires (heap t ! c) \<le> expires (heap t ! j)"
        by (auto simp: c_def)
    qed
    show ?thesis
    proof (cases "expires (heap t ! c) < expires (heap t ! index)")
      case False
      with unf cn rng have e: "y = index" "t1 = t"
        by (simp_all add: c_def Let_def split: if_splits)
      have "down_done (heap t) n index" unfolding down_done_def
      proof (intro allI impI)
        fix j assume "0 < j" "j < n" "(j - 1) div 2 = index"
        from mn [OF this] False show "expires (heap t ! index) \<le> expires (heap t ! j)" by simp
      qed
      with e "1.prems"(4,5) show ?thesis by simp
    next
      case lt: True
      with unf cn rng obtain t0 where s: "SwapNode index c t = Inr t0"
        and r: "siftdown_loop c (left_child c) n t0 = Inr (y, t1)"
        by (auto simp: c_def Let_def split: sum.splits if_splits)
      from rng have "in_range (heap t) c" by (auto simp: c_def)
      then have "c < 2 ^ 63 - 1" by (rule in_range_bound)
      then have lc: "left_child c = 2 * c + 1" by (simp add: left_child_def)
      from s have h0: "heap t0 = (heap t)[index := heap t ! c, c := heap t ! index]"
        by (rule SwapNode_heap)
      from ordered_but_swap [OF "1.prems"(4) c0 cn' pc "1.prems"(3) mn lt]
      have ob0: "ordered_but (heap t0) n c"
        and e0: "expires (heap t0 ! ((c - 1) div 2)) \<le> expires (heap t0 ! c)"
        by (simp_all add: h0)
      from "1.prems"(3) have n0: "n \<le> length (heap t0)" by (simp add: h0)
      from SwapNode_ref_ok [OF s "1.prems"(5)] have r0: "ref_ok t0" .
      from "1.IH" [OF cn rng c_def lt s r lc n0 ob0 r0]
      have ih: "ordered_but (heap t1) n y" "down_done (heap t1) n y" "ref_ok t1"
        "length (heap t1) = length (heap t0)" "\<forall>q. n \<le> q \<longrightarrow> heap t1 ! q = heap t0 ! q"
        "c \<le> y" "y = c \<longrightarrow> t1 = t0"
        "y \<noteq> c \<longrightarrow> 0 < y \<and> expires (heap t1 ! ((y - 1) div 2)) \<le> expires (heap t1 ! y)"
        by simp_all
      from c0 pc have ic: "index < c" by arith
      have tail: "\<And>q. n \<le> q \<Longrightarrow> heap t0 ! q = heap t ! q"
        using cn' ic by (simp add: h0)
      have fin: "0 < y \<and> expires (heap t1 ! ((y - 1) div 2)) \<le> expires (heap t1 ! y)"
      proof (cases "y = c")
        case True
        with ih(7) e0 c0 show ?thesis by simp
      next
        case False
        with ih(8) show ?thesis by simp
      qed
      from ih ic tail fin show ?thesis by (simp add: h0)
    qed
  qed
qed

lemma ordered_but_agree:
  assumes o: "heap_ordered h n" and g: "\<And>q. q < n \<Longrightarrow> q \<noteq> k \<Longrightarrow> g ! q = h ! q"
  shows "ordered_but g n k"
  unfolding ordered_but_def
proof (intro conjI allI impI)
  fix j assume j: "0 < j" "j < n" "j \<noteq> k" "(j - 1) div 2 \<noteq> k"
  from j(1,2) have "(j - 1) div 2 < n" by arith
  with g j have "g ! ((j - 1) div 2) = h ! ((j - 1) div 2)" "g ! j = h ! j" by simp_all
  with o j show "expires (g ! ((j - 1) div 2)) \<le> expires (g ! j)"
    by (simp add: heap_ordered_def)
next
  fix j assume j: "0 < j" "j < n" "(j - 1) div 2 = k" "0 < k"
  from j have kj: "k < j" by arith
  with j have kn: "k < n" by simp
  from j(4) have pk: "(k - 1) div 2 < k" by arith
  with kn g have e1: "g ! ((k - 1) div 2) = h ! ((k - 1) div 2)" by simp
  from kj g j(2) have e2: "g ! j = h ! j" by simp
  from o j(4) kn have "expires (h ! ((k - 1) div 2)) \<le> expires (h ! k)"
    by (simp add: heap_ordered_def)
  moreover from o j(1,2) have "expires (h ! ((j - 1) div 2)) \<le> expires (h ! j)"
    by (simp add: heap_ordered_def)
  ultimately show "expires (g ! ((k - 1) div 2)) \<le> expires (g ! j)"
    unfolding e1 e2 using j(3) by simp
qed

lemma heap_ordered_agree:
  assumes "heap_ordered h n" and "\<And>q. q < n \<Longrightarrow> g ! q = h ! q"
  shows "heap_ordered g n"
  unfolding heap_ordered_def
proof (intro allI impI)
  fix j assume j: "0 < j" "j < n"
  then have "(j - 1) div 2 < n" by arith
  with assms(2) j have "g ! ((j - 1) div 2) = h ! ((j - 1) div 2)" "g ! j = h ! j" by simp_all
  with assms(1) j show "expires (g ! ((j - 1) div 2)) \<le> expires (g ! j)"
    by (simp add: heap_ordered_def)
qed

lemma heap_ordered_less: "heap_ordered h n \<Longrightarrow> m \<le> n \<Longrightarrow> heap_ordered h m"
  by (simp add: heap_ordered_def)

lemma repair_ordered:
  assumes ob: "ordered_but (heap t) n p" and r: "ref_ok t"
    and sd: "siftdown p n t = Inr (moved, t2)"
    and fin: "(if \<not> moved then siftup_unchecked x p t2 else Inr t2) = Inr t3"
    and pn: "p < n"
  shows "heap_ordered (heap t3) n \<and> ref_ok t3 \<and> length (heap t3) = length (heap t)
       \<and> (\<forall>q. n \<le> q \<longrightarrow> heap t3 ! q = heap t ! q)"
proof -
  from sd have rng: "in_range (heap t) p" and nl: "n \<le> length (heap t)"
    by (auto simp: siftdown_def split: if_splits)
  from sd rng nl obtain y where l: "siftdown_loop p (left_child p) n t = Inr (y, t2)"
    and m: "moved = (p < y)"
    by (auto simp: siftdown_def split: sum.splits)
  from rng have "p < 2 ^ 63 - 1" by (rule in_range_bound)
  then have lc: "left_child p = 2 * p + 1" by (simp add: left_child_def)
  from siftdown_loop_ordered [OF l lc nl ob r]
  have sdo: "ordered_but (heap t2) n y" "down_done (heap t2) n y" "ref_ok t2"
    "length (heap t2) = length (heap t)" "\<forall>q. n \<le> q \<longrightarrow> heap t2 ! q = heap t ! q"
    "p \<le> y" "y = p \<longrightarrow> t2 = t"
    "y \<noteq> p \<longrightarrow> 0 < y \<and> expires (heap t2 ! ((y - 1) div 2)) \<le> expires (heap t2 ! y)"
    by simp_all
  show ?thesis
  proof (cases moved)
    case True
    with fin have e: "t3 = t2" by simp
    from True m have "y \<noteq> p" by simp
    with sdo(8) have "0 < y \<longrightarrow> expires (heap t2 ! ((y - 1) div 2)) \<le> expires (heap t2 ! y)"
      by simp
    with sdo(1,2) have "heap_ordered (heap t2) n" by (rule ordered_but_ordered)
    with sdo e show ?thesis by simp
  next
    case False
    with m sdo(6) have yp: "y = p" by simp
    with sdo(7) have e: "t2 = t" by simp
    from False fin e have "siftup_unchecked x p t = Inr t3" by simp
    then have su: "siftup_loop_unchecked x p t = Inr t3"
      by (simp add: siftup_unchecked_def split: if_splits)
    from sdo(1,2) yp e have "up_ok (heap t) n p" by (simp add: ordered_but_up_ok)
    from siftup_loop_ordered [OF su pn nl this r] show ?thesis .
  qed
qed

lemma ref_ok_update:
  assumes "ref_ok t" and "node_id x = node_id (heap t ! k)"
  shows "ref_ok (t\<lparr>heap := (heap t)[k := x]\<rparr>)"
proof -
  have e: "\<And>i. i < length (heap t) \<Longrightarrow> node_id ((heap t)[k := x] ! i) = node_id (heap t ! i)"
  proof -
    fix i assume "i < length (heap t)"
    with assms(2) show "node_id ((heap t)[k := x] ! i) = node_id (heap t ! i)"
      by (cases "i = k") simp_all
  qed
  from assms(1) have a: "\<And>i. i < length (heap t) \<Longrightarrow> ref t (node_id (heap t ! i)) = Some i"
    and b: "\<And>k j. ref t k = Some j \<Longrightarrow> j < length (heap t) \<and> node_id (heap t ! j) = k"
    by (auto simp: ref_ok_def)
  show ?thesis unfolding ref_ok_def
  proof (intro conjI allI impI)
    fix i assume "i < length (heap (t\<lparr>heap := (heap t)[k := x]\<rparr>))"
    then have "i < length (heap t)" by simp
    with a e show "ref (t\<lparr>heap := (heap t)[k := x]\<rparr>)
        (node_id (heap (t\<lparr>heap := (heap t)[k := x]\<rparr>) ! i)) = Some i" by simp
  next
    fix q j assume "ref (t\<lparr>heap := (heap t)[k := x]\<rparr>) q = Some j"
    then have "ref t q = Some j" by simp
    from b [OF this] e
    show "j < length (heap (t\<lparr>heap := (heap t)[k := x]\<rparr>))"
      and "node_id (heap (t\<lparr>heap := (heap t)[k := x]\<rparr>) ! j) = q" by simp_all
  qed
qed

lemma ref_ok_butlast:
  assumes r: "ref_ok t" and ne: "heap t \<noteq> []"
  shows "ref_ok (t\<lparr>ref := (ref t)(node_id (last (heap t)) := None), heap := butlast (heap t)\<rparr>)"
proof -
  let ?n = "length (heap t) - 1"
  from ne have l: "last (heap t) = heap t ! ?n" and n: "?n < length (heap t)"
    by (simp_all add: last_conv_nth)
  show ?thesis unfolding ref_ok_def
  proof (intro conjI allI impI)
    fix i assume "i < length (heap (t\<lparr>ref := (ref t)(node_id (last (heap t)) := None), heap := butlast (heap t)\<rparr>))"
    then have i: "i < ?n" by simp
    with n ref_ok_inj [OF r, of i ?n] have "node_id (heap t ! i) \<noteq> node_id (heap t ! ?n)" by auto
    moreover from r i have "ref t (node_id (heap t ! i)) = Some i" by (simp add: ref_ok_def)
    ultimately show "ref (t\<lparr>ref := (ref t)(node_id (last (heap t)) := None), heap := butlast (heap t)\<rparr>)
        (node_id (heap (t\<lparr>ref := (ref t)(node_id (last (heap t)) := None), heap := butlast (heap t)\<rparr>) ! i)) = Some i"
      using i by (simp add: l nth_butlast)
  next
    fix k j assume a: "ref (t\<lparr>ref := (ref t)(node_id (last (heap t)) := None), heap := butlast (heap t)\<rparr>) k = Some j"
    then have kl: "k \<noteq> node_id (heap t ! ?n)" and o: "ref t k = Some j"
      by (auto simp: l split: if_splits)
    from r o have j: "j < length (heap t)" "node_id (heap t ! j) = k" by (simp_all add: ref_ok_def)
    with kl have "j \<noteq> ?n" by auto
    with j have jn: "j < ?n" by simp
    then show "j < length (heap (t\<lparr>ref := (ref t)(node_id (last (heap t)) := None), heap := butlast (heap t)\<rparr>))"
      by simp
    from jn j show "node_id (heap (t\<lparr>ref := (ref t)(node_id (last (heap t)) := None), heap := butlast (heap t)\<rparr>) ! j) = k"
      by (simp add: nth_butlast)
  qed
qed

lemma del_inv:
  assumes inv: "timer_inv t" and d: "del_unchecked x index t = Inr t1"
  shows "timer_inv t1"
proof -
  from d have rng: "in_range (heap t) index" by (auto simp: del_unchecked_def split: if_splits)
  then have il: "index < length (heap t)" and ne: "heap t \<noteq> []" by (auto simp: in_range_def)
  define n where "n = length (heap t) - 1"
  from inv have ord: "heap_ordered (heap t) (length (heap t))" and r: "ref_ok t"
    and ms: "length (heap t) \<le> max_size" by (simp_all add: timer_inv_def)
  define m where "m = (if index < length (heap t) - 1
            then (case SwapNode index (length (heap t) - 1) t of
                    Inl f \<Rightarrow> Inl f
                  | Inr t1 \<Rightarrow>
                      (case siftdown index (length (heap t) - 1) t1 of
                         Inl f \<Rightarrow> Inl f
                       | Inr (moved, t2) \<Rightarrow>
                           if \<not> moved then siftup_unchecked x index t2 else Inr t2))
            else Inr t)"
  from d have "(if \<not> in_range (heap t) index then Inl AssertionFailed
      else (case m of Inl f \<Rightarrow> Inl f
            | Inr t3 \<Rightarrow> Inr (t3\<lparr>ref := (ref t3)(node_id (last (heap t3)) := None),
                                heap := butlast (heap t3)\<rparr>))) = Inr t1"
    unfolding del_unchecked_def m_def .
  with rng obtain t3 where m3: "m = Inr t3"
    and fin: "t1 = t3\<lparr>ref := (ref t3)(node_id (last (heap t3)) := None), heap := butlast (heap t3)\<rparr>"
    by (cases m) auto
  note mid = m3 [unfolded m_def, folded n_def]
  have t3: "heap_ordered (heap t3) n \<and> ref_ok t3 \<and> length (heap t3) = length (heap t)"
  proof (cases "index < n")
    case False
    with mid have "t3 = t" by simp
    with ord r show ?thesis by (simp add: heap_ordered_less n_def)
  next
    case True
    with mid obtain t0 moved t2 where s: "SwapNode index n t = Inr t0"
      and sd: "siftdown index n t0 = Inr (moved, t2)"
      and su: "(if \<not> moved then siftup_unchecked x index t2 else Inr t2) = Inr t3"
      by (auto split: sum.splits)
    from s have h0: "heap t0 = (heap t)[index := heap t ! n, n := heap t ! index]"
      by (rule SwapNode_heap)
    from ord have "heap_ordered (heap t) n" by (rule heap_ordered_less) (simp add: n_def)
    then have ob: "ordered_but (heap t0) n index"
      by (rule ordered_but_agree) (simp add: h0)
    from SwapNode_ref_ok [OF s r] have r0: "ref_ok t0" .
    from repair_ordered [OF ob r0 sd su True] show ?thesis by (simp add: h0)
  qed
  then have l3: "length (heap t3) = length (heap t)" by simp
  with ne have ne3: "heap t3 \<noteq> []" by auto
  from t3 have "ref_ok t3" by simp
  from ref_ok_butlast [OF this ne3] have "ref_ok t1" by (simp add: fin)
  moreover have "heap_ordered (heap t1) (length (heap t1))"
  proof -
    from t3 have "heap_ordered (heap t3) n" by simp
    then have "heap_ordered (butlast (heap t3)) n"
      by (rule heap_ordered_agree) (simp add: nth_butlast l3 n_def)
    then show ?thesis by (simp add: fin l3 n_def)
  qed
  moreover from ms have "length (heap t1) \<le> max_size" by (simp add: fin l3)
  ultimately show ?thesis by (simp add: timer_inv_def)
qed

lemma add_inv:
  assumes inv: "timer_inv t" and a: "add_unchecked x0 i timeOut c now t = Inr t1"
  shows "timer_inv t1"
proof -
  from inv have ord: "heap_ordered (heap t) (length (heap t))" and r: "ref_ok t"
    and ms: "length (heap t) \<le> max_size" by (simp_all add: timer_inv_def)
  show ?thesis
  proof (cases "ref t i")
    case None
    define x where "x = \<lparr>node_id = i, expires = now + MS timeOut, cb = c\<rparr>"
    define t0 where "t0 = t\<lparr>ref := (ref t)(i \<mapsto> length (heap t)), heap := heap t @ [x]\<rparr>"
    let ?n = "length (heap t)"
    from a None have su: "siftup_unchecked x0 ?n t0 = Inr t1"
      by (simp add: add_unchecked_def Let_def t0_def x_def split: if_splits)
    then have rng: "in_range (heap t0) ?n" and sl: "siftup_loop_unchecked x0 ?n t0 = Inr t1"
      by (auto simp: siftup_unchecked_def split: if_splits)
    have r0: "ref_ok t0" unfolding ref_ok_def
    proof (intro conjI allI impI)
      fix p assume "p < length (heap t0)"
      then have p: "p < ?n \<or> p = ?n" by (auto simp: t0_def)
      show "ref t0 (node_id (heap t0 ! p)) = Some p"
      proof (cases "p = ?n")
        case True
        then show ?thesis by (simp add: t0_def x_def)
      next
        case False
        with p have pl: "p < ?n" by simp
        with r have o: "ref t (node_id (heap t ! p)) = Some p" by (simp add: ref_ok_def)
        with None have "node_id (heap t ! p) \<noteq> i" by auto
        with o pl show ?thesis by (simp add: t0_def nth_append)
      qed
    next
      fix k j assume kj: "ref t0 k = Some j"
      show "j < length (heap t0)"
      proof (cases "k = i")
        case True
        with kj show ?thesis by (simp add: t0_def)
      next
        case False
        with kj have "ref t k = Some j" by (simp add: t0_def)
        with r have "j < length (heap t)" unfolding ref_ok_def by blast
        then show ?thesis by (simp add: t0_def)
      qed
      show "node_id (heap t0 ! j) = k"
      proof (cases "k = i")
        case True
        with kj have "j = length (heap t)" by (simp add: t0_def)
        with True show ?thesis by (simp add: t0_def x_def)
      next
        case False
        with kj have "ref t k = Some j" by (simp add: t0_def)
        with r have "j < length (heap t)" "node_id (heap t ! j) = k" unfolding ref_ok_def by blast+
        then show ?thesis by (simp add: t0_def nth_append)
      qed
    qed
    have u: "up_ok (heap t0) (Suc ?n) ?n" unfolding up_ok_def
    proof (intro conjI allI impI)
      fix j assume j: "0 < j" "j < Suc ?n" "j \<noteq> ?n"
      then have jl: "j < ?n" by simp
      then have "(j - 1) div 2 < ?n" by arith
      with jl ord j(1) show "expires (heap t0 ! ((j - 1) div 2)) \<le> expires (heap t0 ! j)"
        by (simp add: t0_def nth_append heap_ordered_def)
    next
      fix j assume j: "0 < j" "j < Suc ?n" "(j - 1) div 2 = ?n" "0 < ?n"
      then have False by arith
      then show "expires (heap t0 ! ((?n - 1) div 2)) \<le> expires (heap t0 ! j)" ..
    qed
    have "?n < Suc ?n" "Suc ?n \<le> length (heap t0)" by (simp_all add: t0_def)
    from siftup_loop_ordered [OF sl this u r0]
    have "heap_ordered (heap t1) (Suc ?n)" "ref_ok t1" "length (heap t1) = length (heap t0)"
      by simp_all
    moreover from rng have "length (heap t0) \<le> max_size" by (simp add: in_range_def)
    moreover have "length (heap t0) = Suc ?n" by (simp add: t0_def)
    ultimately show ?thesis by (simp add: timer_inv_def)
  next
    case (Some k)
    define p where "p = through_int k"
    define x where "x = (heap t ! p)\<lparr>expires := now + MS timeOut, cb := c\<rparr>"
    define t0 where "t0 = t\<lparr>heap := (heap t)[p := x]\<rparr>"
    from a Some have rng: "in_range (heap t) p"
      by (auto simp: add_unchecked_def p_def split: if_splits)
    then have pl: "p < length (heap t)" by (simp add: in_range_def)
    from a Some rng obtain moved t2 where sd: "siftdown p (length (heap t0)) t0 = Inr (moved, t2)"
      and su: "(if \<not> moved then siftup_unchecked x0 p t2 else Inr t2) = Inr t1"
      by (auto simp: add_unchecked_def Let_def p_def t0_def x_def split: if_splits sum.splits)
    have l0: "length (heap t0) = length (heap t)" by (simp add: t0_def)
    from ord have ob: "ordered_but (heap t0) (length (heap t0)) p" unfolding l0
      by (rule ordered_but_agree) (simp add: t0_def)
    have r0: "ref_ok t0" unfolding t0_def by (rule ref_ok_update [OF r]) (simp add: x_def)
    from pl have "p < length (heap t0)" by (simp add: l0)
    from repair_ordered [OF ob r0 sd su this] ms l0 show ?thesis
      by (simp add: timer_inv_def)
  qed
qed

lemma adjust_inv:
  assumes inv: "timer_inv t" and a: "adjust i newExpires now t = Inr t1"
    and later: "\<And>k. ref t i = Some k \<Longrightarrow> expires (heap t ! k) \<le> now + MS newExpires"
  shows "timer_inv t1"
proof -
  from inv have ord: "heap_ordered (heap t) (length (heap t))" and r: "ref_ok t"
    and ms: "length (heap t) \<le> max_size" by (simp_all add: timer_inv_def)
  from a obtain k where k: "ref t i = Some k" and rng: "in_range (heap t) k"
    by (auto simp: adjust_def split: if_splits option.splits)
  define x where "x = (heap t ! k)\<lparr>expires := now + MS newExpires\<rparr>"
  define t0 where "t0 = t\<lparr>heap := (heap t)[k := x]\<rparr>"
  from rng have kl: "k < length (heap t)" by (simp add: in_range_def)
  have l0: "length (heap t0) = length (heap t)" by (simp add: t0_def)
  from a k rng obtain moved where sd: "siftdown k (length (heap t0)) t0 = Inr (moved, t1)"
    by (auto simp: adjust_def Let_def t0_def x_def split: if_splits sum.splits)
  then have rng0: "in_range (heap t0) k"
    by (auto simp: siftdown_def split: if_splits)
  from sd rng0 obtain y where l: "siftdown_loop k (left_child k) (length (heap t0)) t0 = Inr (y, t1)"
    by (auto simp: siftdown_def split: sum.splits)
  from rng have "k < 2 ^ 63 - 1" by (rule in_range_bound)
  then have lc: "left_child k = 2 * k + 1" by (simp add: left_child_def)
  from ord have ob: "ordered_but (heap t0) (length (heap t0)) k" unfolding l0
    by (rule ordered_but_agree) (simp add: t0_def)
  have r0: "ref_ok t0" unfolding t0_def by (rule ref_ok_update [OF r]) (simp add: x_def)
  from siftdown_loop_ordered [OF l lc order_refl ob r0]
  have sdo: "ordered_but (heap t1) (length (heap t0)) y" "down_done (heap t1) (length (heap t0)) y"
    "ref_ok t1" "length (heap t1) = length (heap t0)" "y = k \<longrightarrow> t1 = t0"
    "y \<noteq> k \<longrightarrow> 0 < y \<and> expires (heap t1 ! ((y - 1) div 2)) \<le> expires (heap t1 ! y)"
    by simp_all
  have "0 < y \<longrightarrow> expires (heap t1 ! ((y - 1) div 2)) \<le> expires (heap t1 ! y)"
  proof (cases "y = k")
    case False
    with sdo(6) show ?thesis by simp
  next
    case True
    with sdo(5) have e: "t1 = t0" by simp
    show ?thesis
    proof
      assume y0: "0 < y"
      with True have k0: "0 < k" by simp
      then have "(k - 1) div 2 < k" by arith
      then have "heap t0 ! ((k - 1) div 2) = heap t ! ((k - 1) div 2)" by (simp add: t0_def)
      moreover from kl have "heap t0 ! k = x" by (simp add: t0_def)
      moreover from ord k0 kl have "expires (heap t ! ((k - 1) div 2)) \<le> expires (heap t ! k)"
        by (simp add: heap_ordered_def)
      moreover from later [OF k] have "expires (heap t ! k) \<le> expires x" by (simp add: x_def)
      ultimately show "expires (heap t1 ! ((y - 1) div 2)) \<le> expires (heap t1 ! y)"
        by (simp add: e True)
    qed
  qed
  with sdo(1,2) have "heap_ordered (heap t1) (length (heap t0))" by (rule ordered_but_ordered)
  with sdo(3,4) ms l0 show ?thesis by (simp add: timer_inv_def)
qed

lemma doWork_inv:
  assumes inv: "timer_inv t" and w: "doWork_unchecked x i t = Inr (fired, t1)"
  shows "timer_inv t1"
proof (cases "heap t = [] \<or> ref t i = None")
  case True
  with w have "t1 = t" by (auto simp: doWork_unchecked_def split: if_splits)
  with inv show ?thesis by simp
next
  case False
  then obtain k where k: "ref t i = Some k" and ne: "heap t \<noteq> []" by auto
  with w have "del_unchecked x k t = Inr t1"
    by (simp add: doWork_unchecked_def split: if_splits sum.splits)
  with inv show ?thesis by (rule del_inv)
qed

lemma tick_inv:
  "tick_unchecked stray clock k fired t = Inr (fired1, k1, t1) \<Longrightarrow> timer_inv t \<Longrightarrow> timer_inv t1"
proof (induction stray clock k fired t rule: tick_unchecked.induct)
  case (1 stray clock k fired t)
  note unf = "1.prems"(1) [unfolded tick_unchecked.simps [of stray clock k fired t]]
  show ?case
  proof (cases "heap t")
    case Nil
    with unf "1.prems"(2) show ?thesis by simp
  next
    case (Cons node rest)
    show ?thesis
    proof (cases "0 < duration_cast_MS (expires node - clock k)")
      case True
      with unf Cons "1.prems"(2) show ?thesis by simp
    next
      case False
      with unf Cons obtain t0 where p: "pop_unchecked (stray k) t = Inr t0"
        and r: "tick_unchecked stray clock (Suc k) (fired @ [cb node]) t0 = Inr (fired1, k1, t1)"
        by (auto split: sum.splits)
      from p "1.prems"(2) have "timer_inv t0"
        by (auto simp: pop_unchecked_def split: if_splits dest: del_inv)
      from "1.IH" [OF Cons False p r this] show ?thesis .
    qed
  qed
qed

lemma root_is_minimum:
  assumes "heap_ordered h n" and "j < n"
  shows "expires (h ! 0) \<le> expires (h ! j)"
  using assms(2)
proof (induction j rule: less_induct)
  case (less j)
  show ?case
  proof (cases "j = 0")
    case True
    then show ?thesis by simp
  next
    case False
    then have p: "(j - 1) div 2 < j" by arith
    with less.prems have "(j - 1) div 2 < n" by simp
    from less.IH [OF p this] have "expires (h ! 0) \<le> expires (h ! ((j - 1) div 2))" .
    moreover from assms(1) False less.prems have "expires (h ! ((j - 1) div 2)) \<le> expires (h ! j)"
      by (simp add: heap_ordered_def)
    ultimately show ?thesis by simp
  qed
qed

lemma ref_ok_dom:
  assumes "ref_ok t"
  shows "dom (ref t) = node_id ` set (heap t)"
proof (intro set_eqI iffI)
  fix k assume "k \<in> dom (ref t)"
  then obtain j where "ref t k = Some j" by auto
  with assms have "j < length (heap t)" "node_id (heap t ! j) = k" unfolding ref_ok_def by blast+
  then show "k \<in> node_id ` set (heap t)" by (metis imageI nth_mem)
next
  fix k assume "k \<in> node_id ` set (heap t)"
  then obtain j where "j < length (heap t)" "k = node_id (heap t ! j)"
    by (auto simp: in_set_conv_nth)
  with assms have "ref t k = Some j" unfolding ref_ok_def by blast
  then show "k \<in> dom (ref t)" by auto
qed

lemma timer_step_inv:
  assumes "timer_inv t" and "later x t" and "timer_step x t = Inr t1"
  shows "timer_inv t1"
proof (cases x)
  case (Add_op x0 i timeOut c now)
  with assms show ?thesis by (auto dest: add_inv)
next
  case (Adjust_op i newExpires now)
  with assms have a: "adjust i newExpires now t = Inr t1"
    and l: "\<And>k. ref t i = Some k \<Longrightarrow> expires (heap t ! k) \<le> now + MS newExpires"
    by simp_all
  from assms(1) a l show ?thesis by (rule adjust_inv)
next
  case (DoWork_op x0 i)
  with assms show ?thesis by (auto split: sum.splits dest: doWork_inv)
next
  case (Tick_op stray clock k)
  with assms show ?thesis by (auto split: sum.splits dest: tick_inv)
qed

lemma timer_run_inv:
  "timer_inv t \<Longrightarrow> adjusts_later ops t \<Longrightarrow> timer_run ops t = Inr t1 \<Longrightarrow> timer_inv t1"
proof (induction ops arbitrary: t)
  case Nil
  then show ?case by simp
next
  case (Cons x xs)
  from Cons.prems(3) obtain t0 where s: "timer_step x t = Inr t0" and r: "timer_run xs t0 = Inr t1"
    by (auto split: sum.splits)
  from Cons.prems(2) s have l: "later x t" and a: "adjusts_later xs t0" by simp_all
  from timer_step_inv [OF Cons.prems(1) l s] have "timer_inv t0" .
  from Cons.IH [OF this a r] show ?case .
qed

lemma timer_inv_root_and_ref:
  assumes "timer_inv t"
  shows "\<forall>j < length (heap t). expires (heap t ! 0) \<le> expires (heap t ! j)"
    and "dom (ref t) = node_id ` set (heap t)"
    and "\<forall>j < length (heap t). ref t (node_id (heap t ! j)) = Some j"
  using assms
  by (auto simp: timer_inv_def ref_ok_dom ref_ok_def intro: root_is_minimum)

lemma adjusts_later_take: "adjusts_later ops t \<Longrightarrow> adjusts_later (take n ops) t"
proof (induction ops arbitrary: t n)
  case Nil
  then show ?case by simp
next
  case (Cons x xs)
  show ?case
  proof (cases n)
    case 0
    then show ?thesis by simp
  next
    case (Suc m)
    with Cons.prems Cons.IH show ?thesis by (auto split: sum.splits)
  qed
qed

lemma new_HeapTimer_inv: "timer_inv new_HeapTimer"
  by (simp add: timer_inv_def heap_ordered_def ref_ok_def new_HeapTimer_def)

text \<open>
  From a new timer, with zeros around the vector: node 5 is added, node 6 is added below
  it, and \<open>doWork(5)\<close> removes the root, which takes \<open>del_\<close> through
  \<open>siftup_(0)\<close>.
\<close>

lemma add_first: "add_unchecked zero_node 5 1000 5 0 new_HeapTimer = Inr one_node"
  by (simp add: add_unchecked_def new_HeapTimer_def one_node_def siftup_unchecked_def
      siftup_loop_unchecked.simps [of _ 0] parent_of_root_outside zero_node_def
      in_range_def max_size_def MS_def Let_def)

lemma add_second: "add_unchecked zero_node 6 2000 6 0 one_node = Inr two_nodes"
proof -
  have p: "parent_of (Suc 0) = 0" by (simp add: parent_of_def)
  show ?thesis
    by (simp add: add_unchecked_def one_node_def two_nodes_def siftup_unchecked_def
        siftup_loop_unchecked.simps [of _ "Suc 0"] p in_range_def max_size_def MS_def Let_def)
qed

lemma doWork_third: "doWork_unchecked zero_node 5 two_nodes = Inr ([5], node_6)"
  by (simp add: doWork_unchecked_def del_unchecked_def two_nodes_def node_6_def SwapNode_def
      siftdown_def siftdown_loop.simps [of 0] left_child_def siftup_unchecked_def
      siftup_loop_unchecked.simps [of _ 0] parent_of_root zero_node_def in_range_def
      max_size_def MS_def Let_def)

lemma run_three_ops: "timer_run three_ops new_HeapTimer = Inr node_6"
  by (simp add: three_ops_def add_first add_second doWork_third)

lemma later_three_ops: "adjusts_later three_ops new_HeapTimer"
  by (simp add: three_ops_def add_first add_second doWork_third)

text \<open>
  C4. For every sequence of \<open>add\<close>, \<open>adjust\<close>, \<open>doWork\<close> and \<open>tick\<close> on a new
  timer in which every \<open>adjust\<close> gives its node a deadline that is not earlier than
  the one it has, after each operation (after the first \<open>n\<close> of them, for every
  \<open>n\<close>) the vector is a binary min-heap, the root holds the minimum of all stored
  deadlines, and \<open>ref_\<close> maps exactly the stored ids to their positions. This is for
  the program as it is built, whatever its reads outside the vector find, as long as
  the operations return: an operation does not return when one of its assertions fails,
  and then the program is aborted.
\<close>

theorem timer_invariant_after_each_operation:
  assumes "adjusts_later ops new_HeapTimer" and "timer_run (take n ops) new_HeapTimer = Inr t"
  shows "heap_ordered (heap t) (length (heap t))
     \<and> (\<forall>j < length (heap t). expires (heap t ! 0) \<le> expires (heap t ! j))
     \<and> dom (ref t) = node_id ` set (heap t)
     \<and> (\<forall>j < length (heap t). ref t (node_id (heap t ! j)) = Some j)"
proof -
  from assms(1) have "adjusts_later (take n ops) new_HeapTimer" by (rule adjusts_later_take)
  from timer_run_inv [OF new_HeapTimer_inv this assms(2)] have i: "timer_inv t" .
  then have "heap_ordered (heap t) (length (heap t))" by (simp add: timer_inv_def)
  with timer_inv_root_and_ref [OF i] show ?thesis by blast
qed

theorem timer_invariant_witness:
  "adjusts_later three_ops new_HeapTimer
   \<and> timer_run (take 3 three_ops) new_HeapTimer = Inr node_6
   \<and> heap_ordered (heap node_6) (length (heap node_6))
   \<and> dom (ref node_6) = node_id ` set (heap node_6)
   \<and> ref node_6 (node_id (heap node_6 ! 0)) = Some 0"
proof -
  have r: "timer_run (take 3 three_ops) new_HeapTimer = Inr node_6"
    using run_three_ops by (simp add: three_ops_def)
  from timer_invariant_after_each_operation [OF later_three_ops r] later_three_ops r
  show ?thesis by (simp add: node_6_def)
qed

text \<open>
  When \<open>add\<close> returns. On a heap that satisfies the invariant and has fewer than
  \<open>2^31\<close> nodes, \<open>add\<close> with an id that is not negative returns whenever the
  node found outside the vector is not due later than the deadline being set: the
  sift-down stays inside the vector, and the sift-up either stops below the root or
  compares the root with that node and stops there.
\<close>

lemma SwapNode_returns:
  "in_range (heap t) i \<Longrightarrow> in_range (heap t) j \<Longrightarrow> \<exists>t1. SwapNode i j t = Inr t1"
  by (simp add: SwapNode_def Let_def)

lemma siftdown_loop_returns:
  "index < length (heap t) \<Longrightarrow> n \<le> length (heap t) \<Longrightarrow> length (heap t) \<le> max_size
   \<Longrightarrow> \<exists>y t1. siftdown_loop index child n t = Inr (y, t1)"
proof (induction index child n t rule: siftdown_loop.induct)
  case (1 index child n t)
  show ?case
  proof (cases "child < n")
    case False
    then show ?thesis by (subst siftdown_loop.simps) simp
  next
    case cn: True
    define c where "c = (if child + 1 < n \<and> expires (heap t ! (child + 1)) < expires (heap t ! child)
                   then child + 1 else child)"
    from cn "1.prems" have rng: "\<not> (\<not> in_range (heap t) child \<or> \<not> in_range (heap t) index
           \<or> (child + 1 < n \<and> \<not> in_range (heap t) (child + 1)))"
      by (auto simp: in_range_def)
    show ?thesis
    proof (cases "expires (heap t ! c) < expires (heap t ! index)")
      case False
      with cn rng show ?thesis
        by (subst siftdown_loop.simps) (simp add: c_def Let_def)
    next
      case lt: True
      from cn have "c < n" by (simp add: c_def)
      with "1.prems" have cr: "in_range (heap t) c" by (simp add: in_range_def)
      from rng have "in_range (heap t) index" by simp
      from SwapNode_returns [OF this cr] obtain t0 where s: "SwapNode index c t = Inr t0" by blast
      from SwapNode_heap [OF s] have l0: "length (heap t0) = length (heap t)" by simp
      from cr have c0: "c < length (heap t0)" by (simp add: l0 in_range_def)
      from "1.prems" have n0: "n \<le> length (heap t0)" "length (heap t0) \<le> max_size"
        by (simp_all add: l0)
      from "1.IH" [OF cn rng c_def lt s c0 n0]
      obtain y t1 where "siftdown_loop c (left_child c) n t0 = Inr (y, t1)" by blast
      with cn rng lt s show ?thesis
        by (subst siftdown_loop.simps) (simp add: c_def Let_def)
    qed
  qed
qed

lemma siftdown_returns:
  "in_range (heap t) i \<Longrightarrow> n \<le> length (heap t) \<Longrightarrow> \<exists>moved t1. siftdown i n t = Inr (moved, t1)"
proof -
  assume r: "in_range (heap t) i" and n: "n \<le> length (heap t)"
  then have "i < length (heap t)" "length (heap t) \<le> max_size" by (simp_all add: in_range_def)
  from siftdown_loop_returns [OF this(1) n this(2)]
  obtain y t1 where "siftdown_loop i (left_child i) n t = Inr (y, t1)" by blast
  with r n show ?thesis by (simp add: siftdown_def)
qed

lemma siftup_loop_unchecked_returns:
  "in_range (heap t) i \<Longrightarrow> expires x \<le> expires (heap t ! i)
   \<Longrightarrow> \<exists>t1. siftup_loop_unchecked x i t = Inr t1"
proof (induction x i t rule: siftup_loop_unchecked.induct)
  case (1 x i t)
  show ?case
  proof (cases "expires (heap t ! i)
      < expires (if in_range (heap t) (parent_of i) then heap t ! parent_of i else x)")
    case False
    with "1.prems"(1) show ?thesis by (subst siftup_loop_unchecked.simps) simp
  next
    case True
    with "1.prems"(2) have prng: "in_range (heap t) (parent_of i)" by (auto split: if_splits)
    from SwapNode_returns [OF "1.prems"(1) prng]
    obtain t0 where s: "SwapNode i (parent_of i) t = Inr t0" by blast
    from SwapNode_heap [OF s]
    have h0: "heap t0 = (heap t)[i := heap t ! parent_of i, parent_of i := heap t ! i]" .
    from prng have pl: "parent_of i < length (heap t)" by (simp add: in_range_def)
    then have e: "heap t0 ! parent_of i = heap t ! i" by (simp add: h0)
    from prng have r0: "in_range (heap t0) (parent_of i)" by (simp add: h0 in_range_def)
    have g: "\<not> \<not> in_range (heap t) i" using "1.prems"(1) by simp
    from "1.prems"(2) have "expires x \<le> expires (heap t0 ! parent_of i)" by (simp add: e)
    from "1.IH" [OF g True s r0 this]
    obtain t1 where "siftup_loop_unchecked x (parent_of i) t0 = Inr t1" by blast
    with True "1.prems"(1) s show ?thesis by (subst siftup_loop_unchecked.simps) simp
  qed
qed

lemma through_int_small: "k < 2 ^ 31 \<Longrightarrow> through_int k = k"
  by (simp add: through_int_def)

lemma add_unchecked_returns:
  assumes inv: "timer_inv t" and i: "0 \<le> i" and small: "length (heap t) < 2 ^ 31"
    and x: "expires x \<le> now + MS timeOut"
  shows "\<exists>t1. add_unchecked x i timeOut c now t = Inr t1"
proof -
  from inv have ord: "heap_ordered (heap t) (length (heap t))" and r: "ref_ok t"
    by (simp_all add: timer_inv_def)
  show ?thesis
  proof (cases "ref t i")
    case None
    define y where "y = \<lparr>node_id = i, expires = now + MS timeOut, cb = c\<rparr>"
    define t0 where "t0 = t\<lparr>ref := (ref t)(i \<mapsto> length (heap t)), heap := heap t @ [y]\<rparr>"
    from small have rng: "in_range (heap t0) (length (heap t))"
      by (simp add: t0_def in_range_def max_size_def)
    have "expires x \<le> expires (heap t0 ! length (heap t))" using x by (simp add: t0_def y_def)
    from siftup_loop_unchecked_returns [OF rng this]
    obtain t1 where "siftup_loop_unchecked x (length (heap t)) t0 = Inr t1" by blast
    with rng None i show ?thesis
      by (simp add: add_unchecked_def Let_def siftup_unchecked_def t0_def y_def)
  next
    case (Some k)
    with r have kl: "k < length (heap t)" unfolding ref_ok_def by blast
    with small have tk: "through_int k = k" by (simp add: through_int_small)
    define y where "y = (heap t ! k)\<lparr>expires := now + MS timeOut, cb := c\<rparr>"
    define t0 where "t0 = t\<lparr>heap := (heap t)[k := y]\<rparr>"
    from kl small have rng: "in_range (heap t) k" by (simp add: in_range_def max_size_def)
    then have rng0: "in_range (heap t0) k" by (simp add: t0_def in_range_def)
    have l0: "length (heap t0) = length (heap t)" by (simp add: t0_def)
    from siftdown_returns [OF rng0 order_refl]
    obtain moved t2 where sd: "siftdown k (length (heap t0)) t0 = Inr (moved, t2)" by blast
    have "\<exists>t1. (if \<not> moved then siftup_unchecked x k t2 else Inr t2) = Inr t1"
    proof (cases moved)
      case True
      then show ?thesis by simp
    next
      case False
      from sd rng0 obtain z where l: "siftdown_loop k (left_child k) (length (heap t0)) t0 = Inr (z, t2)"
        and m: "moved = (k < z)"
        by (auto simp: siftdown_def split: sum.splits)
      from rng have "k < 2 ^ 63 - 1" by (rule in_range_bound)
      then have lc: "left_child k = 2 * k + 1" by (simp add: left_child_def)
      from ord have ob: "ordered_but (heap t0) (length (heap t0)) k" unfolding l0
        by (rule ordered_but_agree) (simp add: t0_def)
      have r0: "ref_ok t0" unfolding t0_def by (rule ref_ok_update [OF r]) (simp add: y_def)
      from siftdown_loop_ordered [OF l lc order_refl ob r0]
      have "k \<le> z" "z = k \<longrightarrow> t2 = t0" by simp_all
      with False m have e: "t2 = t0" by simp
      from kl have "heap t0 ! k = y" by (simp add: t0_def)
      with x have "expires x \<le> expires (heap t0 ! k)" by (simp add: y_def)
      from siftup_loop_unchecked_returns [OF rng0 this]
      obtain t1 where "siftup_loop_unchecked x k t0 = Inr t1" by blast
      with False rng0 e show ?thesis by (simp add: siftup_unchecked_def)
    qed
    then obtain t1 where "(if \<not> moved then siftup_unchecked x k t2 else Inr t2) = Inr t1" by blast
    with Some i rng tk sd show ?thesis
      by (simp add: add_unchecked_def Let_def t0_def y_def)
  qed
qed

text \<open>
  When an operation does not return. On a timer that satisfies the invariant and has
  fewer than \<open>2^31\<close> nodes, an operation that does not return has failed an
  assertion: apart from the read of \<open>siftup_\<close> at the root, which is answered by
  the parameter, no access is outside the vector.
\<close>

lemma SwapNode_fault: "SwapNode i j t = Inl f \<Longrightarrow> f = AssertionFailed"
  by (auto simp: SwapNode_def Let_def split: if_splits)

lemma siftup_loop_unchecked_fault:
  "in_range (heap t) i \<Longrightarrow> siftup_loop_unchecked x i t = Inl f \<Longrightarrow> f = AssertionFailed"
proof (induction x i t rule: siftup_loop_unchecked.induct)
  case (1 x i t)
  note unf = "1.prems"(2) [unfolded siftup_loop_unchecked.simps [of x i t]]
  show ?case
  proof (cases "expires (heap t ! i)
      < expires (if in_range (heap t) (parent_of i) then heap t ! parent_of i else x)")
    case False
    with unf "1.prems"(1) show ?thesis by simp
  next
    case True
    show ?thesis
    proof (cases "SwapNode i (parent_of i) t")
      case (Inl g)
      with unf True "1.prems"(1) have "f = g" by simp
      with Inl show ?thesis by (auto dest: SwapNode_fault)
    next
      case (Inr t0)
      with unf True "1.prems"(1) have r: "siftup_loop_unchecked x (parent_of i) t0 = Inl f" by simp
      from SwapNode_range [OF Inr] SwapNode_heap [OF Inr]
      have r0: "in_range (heap t0) (parent_of i)" by (simp add: in_range_def)
      have g: "\<not> \<not> in_range (heap t) i" using "1.prems"(1) by simp
      from "1.IH" [OF g True Inr r0 r] show ?thesis .
    qed
  qed
qed

lemma siftdown_fault: "siftdown i n t = Inl f \<Longrightarrow> f = AssertionFailed"
proof (cases "in_range (heap t) i \<and> n \<le> length (heap t)")
  case False
  assume "siftdown i n t = Inl f"
  with False show ?thesis by (auto simp: siftdown_def split: if_splits)
next
  case True
  then have "\<exists>moved t1. siftdown i n t = Inr (moved, t1)" by (simp add: siftdown_returns)
  moreover assume "siftdown i n t = Inl f"
  ultimately show ?thesis by auto
qed

lemma siftup_unchecked_fault: "siftup_unchecked x i t = Inl f \<Longrightarrow> f = AssertionFailed"
  by (auto simp: siftup_unchecked_def split: if_splits dest: siftup_loop_unchecked_fault)

lemma del_unchecked_fault: "del_unchecked x index t = Inl f \<Longrightarrow> f = AssertionFailed"
  by (auto simp: del_unchecked_def split: if_splits sum.splits prod.splits
      dest: SwapNode_fault siftdown_fault siftup_unchecked_fault)

lemma tick_unchecked_fault:
  "tick_unchecked stray clock k fired t = Inl f \<Longrightarrow> f = AssertionFailed"
proof (induction stray clock k fired t rule: tick_unchecked.induct)
  case (1 stray clock k fired t)
  note unf = "1.prems" [unfolded tick_unchecked.simps [of stray clock k fired t]]
  show ?case
  proof (cases "heap t")
    case Nil
    with unf show ?thesis by simp
  next
    case (Cons node rest)
    show ?thesis
    proof (cases "0 < duration_cast_MS (expires node - clock k)")
      case True
      with unf Cons show ?thesis by simp
    next
      case False
      show ?thesis
      proof (cases "pop_unchecked (stray k) t")
        case (Inl g)
        with unf Cons False have "f = g" by simp
        with Inl show ?thesis
          by (auto simp: pop_unchecked_def split: if_splits dest: del_unchecked_fault)
      next
        case (Inr t0)
        with unf Cons False
        have "tick_unchecked stray clock (Suc k) (fired @ [cb node]) t0 = Inl f" by simp
        from "1.IH" [OF Cons False Inr this] show ?thesis .
      qed
    qed
  qed
qed

lemma ref_ok_in_range:
  "ref_ok t \<Longrightarrow> length (heap t) \<le> max_size \<Longrightarrow> ref t i = Some k \<Longrightarrow> in_range (heap t) k"
  unfolding ref_ok_def in_range_def by blast

lemma timer_step_fault:
  assumes inv: "timer_inv t" and small: "length (heap t) < 2 ^ 31" and f: "timer_step x t = Inl f"
  shows "f = AssertionFailed"
proof -
  from inv have r: "ref_ok t" and ms: "length (heap t) \<le> max_size" by (simp_all add: timer_inv_def)
  note rng = ref_ok_in_range [OF r ms]
  show ?thesis
  proof (cases x)
    case (Add_op x0 i timeOut c now)
    with f have a: "add_unchecked x0 i timeOut c now t = Inl f" by simp
    show ?thesis
    proof (cases "ref t i")
      case None
      with a show ?thesis
        by (auto simp: add_unchecked_def Let_def split: if_splits dest: siftup_unchecked_fault)
    next
      case (Some k)
      from rng [OF Some] have "k < length (heap t)" by (simp add: in_range_def)
      with small have "through_int k = k" by (simp add: through_int_small)
      with a Some rng [OF Some] show ?thesis
        by (auto simp: add_unchecked_def Let_def split: if_splits sum.splits prod.splits
            dest: siftdown_fault siftup_unchecked_fault)
    qed
  next
    case (Adjust_op i newExpires now)
    with f have a: "adjust i newExpires now t = Inl f" by simp
    show ?thesis
    proof (cases "ref t i")
      case None
      with a show ?thesis by (auto simp: adjust_def split: if_splits)
    next
      case (Some k)
      with a rng [OF Some] show ?thesis
        by (auto simp: adjust_def Let_def split: if_splits sum.splits prod.splits
            dest: siftdown_fault)
    qed
  next
    case (DoWork_op x0 i)
    with f have a: "doWork_unchecked x0 i t = Inl f" by (auto split: sum.splits prod.splits)
    show ?thesis
    proof (cases "ref t i")
      case None
      with a show ?thesis by (auto simp: doWork_unchecked_def split: if_splits)
    next
      case (Some k)
      with a rng [OF Some] show ?thesis
        by (auto simp: doWork_unchecked_def split: if_splits sum.splits
            dest: del_unchecked_fault)
    qed
  next
    case (Tick_op stray clock k)
    with f have "tick_unchecked stray clock k [] t = Inl f" by (auto split: sum.splits prod.splits)
    then show ?thesis by (rule tick_unchecked_fault)
  qed
qed

section \<open>The response builder\<close>

lemma CODE_PATH_simps:
  "CODE_PATH 400 = Some ''/400.html''" "CODE_PATH 403 = Some ''/403.html''"
  "CODE_PATH 404 = Some ''/404.html''"
  "c \<noteq> 400 \<Longrightarrow> c \<noteq> 403 \<Longrightarrow> c \<noteq> 404 \<Longrightarrow> CODE_PATH c = None"
  by (simp_all add: CODE_PATH_def)

lemma check_file_code: "code (check_file env r) = claimed_status env r"
  by (simp add: check_file_def stat_into_def claimed_status_def Let_def split: option.splits)

lemma check_file_path: "path (check_file env r) = path r"
  by (simp add: check_file_def stat_into_def Let_def split: option.splits)

lemma check_file_srcDir: "srcDir (check_file env r) = srcDir r"
  by (simp add: check_file_def stat_into_def Let_def split: option.splits)

lemma check_file_stat:
  "mmFileStat (check_file env r)
   = (case sys_stat env (srcDir r @ path r) of None \<Rightarrow> mmFileStat r | Some s \<Rightarrow> s)"
  by (simp add: check_file_def stat_into_def Let_def split: option.splits)

text \<open>
  C7. \<open>MakeResponse\<close> decides the status exactly as specified: 404 if \<open>stat\<close> on
  \<open>src_dir + path\<close> fails or the target is a directory, else 403 if the file is not
  world-readable, else 200 if the code was unset and the preset code otherwise; then,
  for 400, 403 and 404, the path becomes the matching error page and that page is
  stat'ed again. All of this is done when the status line, the headers and the content
  are appended.
\<close>

theorem MakeResponse_status:
  "code (ErrorHtml env (check_file env r)) = claimed_status env r
   \<and> path (ErrorHtml env (check_file env r)) = claimed_path env r
   \<and> mmFileStat (ErrorHtml env (check_file env r)) = claimed_stat env r
   \<and> MakeResponse env (r, buff)
       = AddContent env (AddHeader (AddStateLine (ErrorHtml env (check_file env r), buff)))"
proof -
  let ?c = "check_file env r"
  consider "claimed_status env r = 400" | "claimed_status env r = 403"
    | "claimed_status env r = 404"
    | "claimed_status env r \<noteq> 400" "claimed_status env r \<noteq> 403" "claimed_status env r \<noteq> 404"
    by blast
  then have "code (ErrorHtml env ?c) = claimed_status env r
     \<and> path (ErrorHtml env ?c) = claimed_path env r
     \<and> mmFileStat (ErrorHtml env ?c) = claimed_stat env r"
  proof cases
    case 1
    then show ?thesis
      by (simp add: ErrorHtml_def stat_into_def check_file_code check_file_srcDir check_file_stat
          CODE_PATH_simps claimed_path_def claimed_stat_def split: option.splits)
  next
    case 2
    then show ?thesis
      by (simp add: ErrorHtml_def stat_into_def check_file_code check_file_srcDir check_file_stat
          CODE_PATH_simps claimed_path_def claimed_stat_def split: option.splits)
  next
    case 3
    then show ?thesis
      by (simp add: ErrorHtml_def stat_into_def check_file_code check_file_srcDir check_file_stat
          CODE_PATH_simps claimed_path_def claimed_stat_def split: option.splits)
  next
    case 4
    then show ?thesis
      by (simp add: ErrorHtml_def check_file_code check_file_path check_file_stat
          CODE_PATH_simps claimed_path_def claimed_stat_def)
  qed
  then show ?thesis by (simp add: MakeResponse_def)
qed

text \<open>
  When \<open>open\<close> fails, \<open>AddContent_\<close> does what the specification says: the inline
  error body is appended and no file payload is set.
\<close>

lemma AddContent_open_failure:
  assumes "\<not> sys_open env (srcDir r @ path r)"
  shows "AddContent env (r, buff) = Inr (ErrorContent ''File NotFound!'' (r, buff))"
    and "mmFile (fst (ErrorContent ''File NotFound!'' (r, buff))) = mmFile r"
  using assms by (simp_all add: AddContent_def ErrorContent_def Let_def)

text \<open>
  C5. When \<open>open\<close> or \<open>mmap\<close> fails (a file of length zero included),
  \<open>AddContent_\<close> appends the inline error body and returns without a file payload, and
  finding out that \<open>mmap\<close> failed does not touch the failed mapping. The code's comment
  says the same, but the test is \<open>*mmRet == -1\<close>: it reads the \<open>int\<close> at the
  returned address, which is \<open>MAP_FAILED\<close>. Whenever \<open>open\<close> succeeds and \<open>mmap\<close>
  fails the function traps instead of appending anything.
\<close>

theorem AddContent_mmap_failure:
  assumes "sys_open env (srcDir r @ path r)"
    and "sys_mmap env (srcDir r @ path r) (st_size (mmFileStat r)) = None"
  shows "AddContent env (r, buff) = Inl SegmentationFault"
  using assms by (simp add: AddContent_def deref_int_def)

theorem AddContent_mmap_failure_witness:
  "AddContent empty_file_sys
     (new_HttpResponse\<lparr>code := 200, path := ''/empty.txt'', srcDir := ''/srv/resources/'',
        mmFileStat := \<lparr>st_mode = 0x81A4, st_size = 0\<rparr>\<rparr>, empty_Buffer)
   = Inl SegmentationFault"
  by (rule AddContent_mmap_failure) (simp_all add: empty_file_sys_def new_HttpResponse_def)

text \<open>The whole of \<open>MakeResponse\<close> on a request for a readable file of length zero.\<close>

lemma MakeResponse_empty_file:
  "MakeResponse empty_file_sys
     (new_HttpResponse\<lparr>code := 200, path := ''/empty.txt'', srcDir := ''/srv/resources/''\<rparr>,
      empty_Buffer)
   = Inl SegmentationFault"
  by (simp add: MakeResponse_def AddContent_def deref_int_def empty_file_sys_def
      new_HttpResponse_def AddHeader_def AddStateLine_def ErrorHtml_def check_file_def
      stat_into_def S_ISDIR_def S_IROTH_def CODE_PATH_def CODE_STATUS_def Let_def)

section \<open>The vectored write\<close>

lemma write_step_pending:
  assumes le: "unat len \<le> pending c"
  shows "pending (write_step len c) + unat len = pending c"
proof (cases "iov_len (iov0 c) < len")
  case True
  then have l0: "iov_len (iov0 c) \<le> len" by simp
  then have d: "unat (len - iov_len (iov0 c)) = unat len - unat (iov_len (iov0 c))"
    by (rule unat_sub)
  from True have lt: "unat (iov_len (iov0 c)) < unat len" by (simp add: word_less_nat_alt)
  with le d have "unat (len - iov_len (iov0 c)) \<le> unat (iov_len (iov1 c))"
    by (simp add: pending_def)
  then have "len - iov_len (iov0 c) \<le> iov_len (iov1 c)" by (simp add: word_le_nat_alt)
  then have e: "unat (iov_len (iov1 c) - (len - iov_len (iov0 c)))
      = unat (iov_len (iov1 c)) - (unat len - unat (iov_len (iov0 c)))"
    using d by (simp add: unat_sub)
  from True e lt le show ?thesis
    by (auto simp: write_step_def pending_def Let_def)
next
  case False
  then have l: "len \<le> iov_len (iov0 c)" by simp
  then have "unat (iov_len (iov0 c) - len) = unat (iov_len (iov0 c)) - unat len"
    by (rule unat_sub)
  moreover from l have "unat len \<le> unat (iov_len (iov0 c))" by (simp add: word_le_nat_alt)
  ultimately show ?thesis using False
    by (simp add: write_step_def pending_def)
qed

lemma write_step_order:
  "iov_len (iov0 (write_step len c)) = 0 \<or> iov1 (write_step len c) = iov1 c"
  by (simp add: write_step_def Let_def)

lemma write_step_describes:
  assumes d: "iov0_describes c"
  shows "iov0_describes (write_step len c)"
proof (cases "iov_len (iov0 c) < len")
  case True
  with d show ?thesis
    by (auto simp: write_step_def iov0_describes_def Let_def RetrieveAll_def ReadableBytes_def)
next
  case False
  then have l: "len \<le> iov_len (iov0 c)" by simp
  then have s: "unat (iov_len (iov0 c) - len) = unat (iov_len (iov0 c)) - unat len"
    by (rule unat_sub)
  from l have n: "unat len \<le> unat (iov_len (iov0 c))" by (simp add: word_le_nat_alt)
  show ?thesis
  proof (cases "iov_len (iov0 c) = 0")
    case True
    with l have "len = 0" by simp
    with d True False show ?thesis
      by (simp add: write_step_def iov0_describes_def Retrieve_def ReadableBytes_def)
  next
    case nz: False
    with d have b: "iov_base (iov0 c) = word_of_nat (Peek (writeBuff c))"
      and r: "unat (iov_len (iov0 c)) = ReadableBytes (writeBuff c)"
      by (simp_all add: iov0_describes_def)
    from False s n r b show ?thesis
      by (simp add: write_step_def iov0_describes_def Retrieve_def ReadableBytes_def Peek_def)
  qed
qed

lemma ToWriteBytes_small:
  assumes "pending d < 2 ^ 31"
  shows "ToWriteBytes d = int (pending d)"
proof -
  from assms have "unat (iov_len (iov0 d) + iov_len (iov1 d)) = pending d"
    by (simp add: pending_def unat_word_ariths)
  with assms show ?thesis
    by (simp add: ToWriteBytes_def size_t_to_int_small)
qed

lemma HttpConn_write_iteration:
  assumes "0 <s len" and "iov_len (iov0 c) + iov_len (iov1 c) \<noteq> 0"
  shows "HttpConn_write isET ((len, e) # ks) c
    = (if isET \<or> 10240 < ToWriteBytes (write_step len c)
       then HttpConn_write isET ks (write_step len c)
       else Some (len, None, write_step len c))"
  using assms by (auto simp: Let_def word_sle_eq word_sless_alt)

text \<open>
  The two lengths are kept exactly. In an iteration of \<open>HttpConn::write\<close> in which
  \<open>writev\<close> reports \<open>len\<close> bytes, \<open>len\<close> at most the bytes pending, and
  \<open>iov_[0]\<close> describes the readable region of the write buffer: the bytes pending
  (\<open>iov_[0].iov_len + iov_[1].iov_len\<close>) decrease by exactly \<open>len\<close>; the file region
  \<open>iov_[1]\<close> is touched only when the header region is used up; \<open>iov_[0]\<close> again
  describes the readable region of the write buffer; and with fewer than \<open>2^31\<close>
  bytes pending \<open>ToWriteBytes()\<close> decreases by exactly \<open>len\<close>.
\<close>

lemma write_step_accounting:
  assumes "unat len \<le> pending c" and "iov0_describes c"
  shows "pending (write_step len c) + unat len = pending c
    \<and> (iov_len (iov0 (write_step len c)) = 0 \<or> iov1 (write_step len c) = iov1 c)
    \<and> iov0_describes (write_step len c)
    \<and> (pending c < 2 ^ 31
         \<longrightarrow> ToWriteBytes (write_step len c) = ToWriteBytes c - int (unat len))"
proof -
  have p: "pending (write_step len c) + unat len = pending c"
    using assms(1) by (rule write_step_pending)
  have o: "iov_len (iov0 (write_step len c)) = 0 \<or> iov1 (write_step len c) = iov1 c"
    by (rule write_step_order)
  have d: "iov0_describes (write_step len c)" using assms(2) by (rule write_step_describes)
  have t: "ToWriteBytes (write_step len c) = ToWriteBytes c - int (unat len)"
    if small: "pending c < 2 ^ 31"
  proof -
    from p small have "pending (write_step len c) < 2 ^ 31" by simp
    then have "ToWriteBytes (write_step len c) = int (pending (write_step len c))"
      by (rule ToWriteBytes_small)
    moreover from small have "ToWriteBytes c = int (pending c)" by (rule ToWriteBytes_small)
    moreover have "int (pending c) = int (pending (write_step len c)) + int (unat len)"
      using p by (simp only: of_nat_add [symmetric])
    ultimately show ?thesis by linarith
  qed
  from p o d t show ?thesis by blast
qed

lemma big_file_pending: "pending big_file_conn = 2147483748"
  by (simp add: big_file_conn_def new_HttpConn_def pending_def)

lemma big_file_len_positive: "(0 :: 64 word) <s 200" by (simp add: word_sless_alt)

lemma big_file_len_le_pending: "unat (200 :: 64 word) \<le> pending big_file_conn"
  by (simp add: big_file_conn_def new_HttpConn_def pending_def)

lemma big_file_describes: "iov0_describes big_file_conn"
  by (simp add: big_file_conn_def new_HttpConn_def iov0_describes_def ReadableBytes_def empty_Buffer_def)

lemma big_file_before: "ToWriteBytes big_file_conn = - 2147483548"
  by (simp add: big_file_conn_def new_HttpConn_def ToWriteBytes_def size_t_to_int_def)

lemma big_file_pending_after: "pending (write_step 200 big_file_conn) = 2147483548"
  by (simp add: big_file_conn_def new_HttpConn_def pending_def write_step_def Let_def)

lemma big_file_after: "ToWriteBytes (write_step 200 big_file_conn) = 2147483548"
  by (simp add: big_file_conn_def new_HttpConn_def ToWriteBytes_def size_t_to_int_def write_step_def Let_def)

text \<open>
  C8. In each iteration of \<open>HttpConn::write\<close> in which \<open>writev\<close> reports
  \<open>0 < len \<le> iov_[0].iov_len + iov_[1].iov_len\<close> bytes, the pending byte count
  \<open>ToWriteBytes()\<close> decreases by exactly \<open>len\<close>, \<open>iov_[0]\<close> is consumed before
  \<open>iov_[1]\<close>, and \<open>iov_[0]\<close> keeps describing the readable region of the write
  buffer. \<open>ToWriteBytes()\<close> is documented to return the total number of bytes to
  write, and returns the sum of two \<open>size_t\<close> as an \<open>int\<close>. With the header
  written and 2147483748 bytes of a file pending it returns \<open>-2147483548\<close>; when
  \<open>writev\<close> then reports 200 bytes, 2147483548 bytes are pending and it returns
  \<open>2147483548\<close>. It has not decreased by 200, and before the write it was not the
  number of bytes to write.
\<close>

theorem ToWriteBytes_big_file_wraps:
  "(0 :: 64 word) <s 200 \<and> unat (200 :: 64 word) \<le> pending big_file_conn
   \<and> iov0_describes big_file_conn
   \<and> pending big_file_conn = 2147483748
   \<and> ToWriteBytes big_file_conn = - 2147483548
   \<and> pending (write_step 200 big_file_conn) = 2147483548
   \<and> ToWriteBytes (write_step 200 big_file_conn) = 2147483548"
  using big_file_len_positive big_file_len_le_pending big_file_describes big_file_pending
    big_file_before big_file_pending_after big_file_after
  by simp

section \<open>The blocking queue\<close>

lemma BlockQueue_pop_true: "BlockQueue_pop q wakes = Some (b, x, q1) \<Longrightarrow> b"
proof (induction wakes arbitrary: q)
  case Nil
  then show ?case by (subst (asm) BlockQueue_pop.simps) (auto split: list.splits)
next
  case (Cons w wakes)
  from Cons.prems show ?case
    by (subst (asm) BlockQueue_pop.simps) (auto split: list.splits dest: Cons.IH)
qed

text \<open>
  The timed \<open>pop\<close> does what the specification says: called on a closed queue, or
  woken by \<open>Close\<close> while it waits on an empty queue, it returns false at its first
  wake-up.
\<close>

lemma pop_timed_after_Close:
  "BlockQueue_pop_timed (BlockQueue_Close q) ((st, BlockQueue_Close q) # rest)
   = Some (False, None, BlockQueue_Close q)"
  by (subst BlockQueue_pop_timed.simps) (simp add: BlockQueue_Close_def BlockQueue_clear_def)

lemma pop_timed_woken_by_Close:
  "deq q = [] \<Longrightarrow>
   BlockQueue_pop_timed q ((st, BlockQueue_Close q1) # rest) = Some (False, None, BlockQueue_Close q1)"
  by (subst BlockQueue_pop_timed.simps) (simp add: BlockQueue_Close_def BlockQueue_clear_def)

text \<open>
  C2. After \<open>Close\<close> every \<open>pop\<close> on the closed queue, timed or not, returns false
  instead of blocking. The untimed \<open>pop(item)\<close> has no test of \<open>isClose_\<close> (the timed
  one has) and no \<open>return false\<close>: on the closed queue, which \<open>Close\<close> has emptied,
  it is still waiting after any number of wake-ups.
\<close>

theorem pop_after_Close_blocks:
  "BlockQueue_pop (BlockQueue_Close q) (replicate n (BlockQueue_Close q)) = None"
proof (induction n)
  case 0
  show ?case by (subst BlockQueue_pop.simps) (simp add: BlockQueue_Close_def BlockQueue_clear_def)
next
  case (Suc n)
  have "deq (BlockQueue_Close q) = []" by (simp add: BlockQueue_Close_def BlockQueue_clear_def)
  then show ?case using Suc by (subst BlockQueue_pop.simps) simp
qed

section \<open>The user table\<close>

lemma AddClient_users:
  assumes "AddClient k now x ctl w = Inr w1"
  shows "dom (users w1) = insert k (dom (users w))"
    and "is_open w1 j = (if j = k then True else is_open w j)"
  using assms
  by (auto simp: AddClient_def HttpConn_init_def is_open_def split: if_splits sum.splits)

lemma CloseConn_users:
  assumes "CloseConn k ctl w = Inr w1"
  shows "dom (users w1) = dom (users w)"
    and "is_open w1 j = (if j = k then False else is_open w j)"
  using assms
  by (auto simp: CloseConn_def Close_def is_open_def Let_def split: option.splits if_splits)

text \<open>
  A server with a timeout of 60 seconds, zeros around the heap vector, and a kernel that
  accepts every \<open>epoll_ctl\<close>: descriptors 5 and 6 are added and 5 is closed.
\<close>

lemma add_5: "add_unchecked zero_node 5 60000 5 0 new_HeapTimer
    = Inr \<lparr>heap = [\<lparr>node_id = 5, expires = MS 60000, cb = 5\<rparr>], ref = [5 \<mapsto> 0]\<rparr>"
  by (simp add: add_unchecked_def new_HeapTimer_def siftup_unchecked_def
      siftup_loop_unchecked.simps [of _ 0] parent_of_root_outside zero_node_def
      in_range_def max_size_def MS_def Let_def)

lemma add_6: "add_unchecked zero_node 6 60000 6 0
      \<lparr>heap = [\<lparr>node_id = 5, expires = MS 60000, cb = 5\<rparr>], ref = [5 \<mapsto> 0]\<rparr>
    = Inr \<lparr>heap = [\<lparr>node_id = 5, expires = MS 60000, cb = 5\<rparr>,
                    \<lparr>node_id = 6, expires = MS 60000, cb = 6\<rparr>],
            ref = [5 \<mapsto> 0, 6 \<mapsto> 1]\<rparr>"
proof -
  have p: "parent_of (Suc 0) = 0" by (simp add: parent_of_def)
  show ?thesis
    by (simp add: add_unchecked_def siftup_unchecked_def
        siftup_loop_unchecked.simps [of _ "Suc 0"] p in_range_def max_size_def MS_def Let_def)
qed

lemma run_add_close:
  "run_ops [AddClient_op 5 0 zero_node True, CloseConn_op 5 True] (new_WebServer 60000)
   = Inr closed_5"
  by (simp add: AddClient_def CloseConn_def new_WebServer_def users_at_def HttpConn_init_def
      Close_def new_HttpConn_def UnmapFile_def new_HttpResponse_def RetrieveAll_def
      empty_Buffer_def AddFd_def DelFd_def Let_def closed_5_def add_5)

lemma run_add_add_close:
  "run_ops [AddClient_op 5 0 zero_node True, AddClient_op 6 0 zero_node True,
            CloseConn_op 5 True] (new_WebServer 60000)
   = Inr closed_5_open_6"
  by (simp add: AddClient_def CloseConn_def new_WebServer_def users_at_def HttpConn_init_def
      Close_def new_HttpConn_def UnmapFile_def new_HttpResponse_def RetrieveAll_def
      empty_Buffer_def AddFd_def DelFd_def Let_def closed_5_open_6_def fun_upd_twist
      insert_Diff_if add_5 add_6)

text \<open>
  \<open>AddClient_\<close> returns for a descriptor above 0 when the timer satisfies its
  invariant with fewer than \<open>2^31\<close> nodes and the node found outside the heap
  vector is not due later than the new deadline. It does not return when an assertion
  fails: for a descriptor that is not above 0, or in \<open>SwapNode_\<close> when that node is
  due later than a root that \<open>siftup_\<close> has reached.
\<close>

lemma AddClient_returns:
  assumes "0 < k" and "timer_inv (timer w)" and "length (heap (timer w)) < 2 ^ 31"
    and "expires x \<le> now + MS (timeoutMS w)"
  shows "\<exists>w1. AddClient k now x ctl w = Inr w1"
proof -
  from assms(1) have "0 \<le> k" by simp
  from add_unchecked_returns [OF assms(2) this assms(3,4)]
  obtain t1 where "add_unchecked x k (timeoutMS w) k now (timer w) = Inr t1" by blast
  with assms(1) show ?thesis by (simp add: AddClient_def HttpConn_init_def)
qed

text \<open>
  C6, as the code has it. \<open>CloseConn_\<close> never erases from \<open>users_\<close>: it closes the
  connection in place. After every sequence of \<open>AddClient_\<close> and \<open>CloseConn_\<close> that
  runs through (no assertion aborts the server), with or without timeouts, the keys of
  the table are the keys it had before together with every descriptor \<open>AddClient_\<close>
  was called for, and the connection of a descriptor is open exactly when the last
  operation that named it is an \<open>AddClient_\<close> (when none named it, as it was
  before). So an open connection has its key in the table, and a closed one keeps its
  key.
\<close>

theorem users_table_after_ops:
  "run_ops ops w = Inr w1 \<Longrightarrow>
   dom (users w1) = dom (users w) \<union> added ops
   \<and> is_open w1 k = open_after (is_open w k) k ops"
proof (induction ops arbitrary: w)
  case Nil
  then show ?case by simp
next
  case (Cons x xs)
  from Cons.prems obtain w0 where a: "apply_op x w = Inr w0" and r: "run_ops xs w0 = Inr w1"
    by (auto split: sum.splits)
  from Cons.IH [OF r] have ih: "dom (users w1) = dom (users w0) \<union> added xs"
    "is_open w1 k = open_after (is_open w0 k) k xs" by simp_all
  show ?case
  proof (cases x)
    case (AddClient_op j now y ctl)
    with a have "AddClient j now y ctl w = Inr w0" by simp
    from AddClient_users [OF this] ih AddClient_op show ?thesis by auto
  next
    case (CloseConn_op j ctl)
    with a have "CloseConn j ctl w = Inr w0" by simp
    from CloseConn_users [OF this] ih CloseConn_op show ?thesis by auto
  qed
qed

theorem users_table_after_ops_witness:
  "run_ops [AddClient_op 5 0 zero_node True, AddClient_op 6 0 zero_node True,
            CloseConn_op 5 True] (new_WebServer 60000)
     = Inr closed_5_open_6
   \<and> dom (users closed_5_open_6) = {5, 6}
   \<and> is_open closed_5_open_6 6 \<and> \<not> is_open closed_5_open_6 5"
proof -
  note r = run_add_add_close
  have e: "dom (users (new_WebServer 60000)) = {}" "\<And>k. \<not> is_open (new_WebServer 60000) k"
    by (simp_all add: new_WebServer_def is_open_def)
  from users_table_after_ops [OF r, of 5] users_table_after_ops [OF r, of 6] e r
  show ?thesis by auto
qed

text \<open>
  C6, as stated, says that a key is present if and only if the connection is open, and
  that closing a connection removes its entry. After \<open>AddClient_(5)\<close> and
  \<open>CloseConn_\<close> on that connection the key 5 is in the table and the connection is
  closed.
\<close>

theorem closed_connection_keeps_its_key:
  "run_ops [AddClient_op 5 0 zero_node True, CloseConn_op 5 True] (new_WebServer 60000)
     = Inr closed_5
   \<and> 5 \<in> dom (users closed_5) \<and> \<not> is_open closed_5 5"
proof -
  have "5 \<in> dom (users closed_5)" by (simp add: closed_5_def)
  moreover have "\<not> is_open closed_5 5"
    by (simp add: closed_5_def is_open_def new_HttpConn_def)
  ultimately show ?thesis using run_add_close by blast
qed

section \<open>Processing a request\<close>

lemma HttpRequest_Init_const: "HttpRequest_Init q = HttpRequest_Init r"
  by (cases q, cases r) (simp add: HttpRequest_Init_def)

lemma Append_empty: "Append s empty_Buffer = \<lparr>octets = s, readPos = 0, writePos = length s\<rparr>"
  by (simp add: Append_def MakeSpace_def compact_def empty_Buffer_def WritableBytes_def
      ReadableBytes_def readable_def Let_def)

lemma MakeResponse_returns:
  assumes "\<And>p n. sys_open env p \<Longrightarrow> sys_mmap env p n \<noteq> None"
  shows "\<exists>x. MakeResponse env (r, buff) = Inr x"
proof -
  obtain r1 b1 where e: "AddHeader (AddStateLine (ErrorHtml env (check_file env r), buff)) = (r1, b1)"
    by (cases "AddHeader (AddStateLine (ErrorHtml env (check_file env r), buff))") auto
  show ?thesis
  proof (cases "sys_open env (srcDir r1 @ path r1)")
    case False
    then show ?thesis by (simp add: MakeResponse_def e AddContent_def)
  next
    case True
    from assms [OF True] obtain m where "sys_mmap env (srcDir r1 @ path r1) (st_size (mmFileStat r1)) = Some m"
      by blast
    with True show ?thesis by (simp add: MakeResponse_def e AddContent_def deref_int_def)
  qed
qed

lemma process_returns:
  assumes "dir \<noteq> []" and "\<And>p n. sys_open env p \<Longrightarrow> sys_mmap env p n \<noteq> None"
  shows "\<exists>b c1. process env pe dir c = Inr (b, c1)"
proof (cases "ReadableBytes (readBuff c) \<le> 0")
  case True
  then show ?thesis by (auto simp: process_def Let_def)
next
  case False
  obtain ok rq rb where p: "parse pe (HttpRequest_Init (request c), readBuff c) = (ok, rq, rb)"
    by (cases "parse pe (HttpRequest_Init (request c), readBuff c)") auto
  have "\<exists>rs. (if ok
       then HttpResponse_Init dir (request_path rq) (IsKeepAlive rq) 200 (response c)
       else HttpResponse_Init dir (request_path rq) False 400 (response c)) = Inr rs"
    using assms(1) by (simp add: HttpResponse_Init_def Let_def)
  then obtain rs where i: "(if ok
       then HttpResponse_Init dir (request_path rq) (IsKeepAlive rq) 200 (response c)
       else HttpResponse_Init dir (request_path rq) False 400 (response c)) = Inr rs"
    by blast
  from MakeResponse_returns [OF assms(2)] obtain x where
    m: "MakeResponse env (rs, writeBuff c) = Inr x" by blast
  obtain rs1 wb where x: "x = (rs1, wb)" by (cases x) auto
  from False p i m x show ?thesis
    by (auto simp: process_def Let_def split: if_splits)
qed

lemma process_parser:
  assumes "process env pe dir c = Inr (b, c1)" and "0 < ReadableBytes (readBuff c)"
  shows "request c1 = fst (snd (parse pe (HttpRequest_Init (request c), readBuff c)))"
    and "readBuff c1 = snd (snd (parse pe (HttpRequest_Init (request c), readBuff c)))"
  using assms
  by (auto simp: process_def Let_def split: if_splits prod.splits sum.splits)

lemma site_maps: "sys_open site p \<Longrightarrow> sys_mmap site p n \<noteq> None"
  by (auto simp: site_def)

lemma parse_whole:
  "parse site_pages (HttpRequest_Init r, Append (request_head @ request_tail) empty_Buffer)
   = (True,
      r\<lparr>state := FINISH, request_method := ''GET'', request_path := ''/index.html'',
        version := ''1.1'', body := [], header := [''Connection'' \<mapsto> ''keep-alive''], post := Map.empty\<rparr>,
      \<lparr>octets = request_head @ request_tail, readPos = 42, writePos = 42\<rparr>)"
  by (simp add: Append_empty parse.simps HttpRequest_Init_def request_head_def request_tail_def
      CRLF_def readable_def ReadableBytes_def Retrieve_def ParseRequestLine_def ParsePath_def
      ParseHeader_def site_pages_def content_length_def)

lemma parse_head:
  "parse site_pages (HttpRequest_Init r, Append request_head empty_Buffer)
   = (False,
      r\<lparr>state := HEADERS, request_method := ''GET'', request_path := ''/index.html'',
        version := ''1.1'', body := [], header := [''Connection'' \<mapsto> ''keep-alive''], post := Map.empty\<rparr>,
      \<lparr>octets = request_head, readPos = 40, writePos = 40\<rparr>)"
  by (simp add: Append_empty parse.simps HttpRequest_Init_def request_head_def
      CRLF_def readable_def ReadableBytes_def Retrieve_def ParseRequestLine_def ParsePath_def
      ParseHeader_def site_pages_def content_length_def)

lemma parse_tail:
  "\<exists>rb. parse site_pages
     (HttpRequest_Init r, Append request_tail \<lparr>octets = request_head, readPos = 40, writePos = 40\<rparr>)
   = (False, HttpRequest_Init r, rb)"
  by (simp add: Append_def MakeSpace_def compact_def WritableBytes_def parse.simps
      HttpRequest_Init_def request_head_def request_tail_def
      CRLF_def readable_def ReadableBytes_def Retrieve_def ParseRequestLine_def Let_def)

lemma parsed_one_call: "parsed one_call = Some (FINISH, ''GET'', ''/index.html'', Some ''keep-alive'')"
proof -
  let ?c = "conn_with (request_head @ request_tail)"
  have rb: "readBuff ?c = Append (request_head @ request_tail) empty_Buffer"
    by (simp add: conn_with_def)
  have pos: "0 < ReadableBytes (readBuff ?c)"
    unfolding rb
    by (simp add: Append_empty ReadableBytes_def request_head_def request_tail_def CRLF_def)
  from process_returns [of "''/srv''" site site_pages ?c] site_maps
  obtain b c1 where r: "process site site_pages ''/srv'' ?c = Inr (b, c1)" by auto
  from process_parser(1) [OF r pos] have "request c1 =
      (request ?c)\<lparr>state := FINISH, request_method := ''GET'', request_path := ''/index.html'',
        version := ''1.1'', body := [], header := [''Connection'' \<mapsto> ''keep-alive''], post := Map.empty\<rparr>"
    by (simp add: rb parse_whole)
  with r show ?thesis by (simp add: parsed_def one_call_def)
qed

lemma first_call_result:
  "\<exists>b c1. first_call = Inr (b, c1)
     \<and> request c1 = (request (conn_with request_head))
          \<lparr>state := HEADERS, request_method := ''GET'', request_path := ''/index.html'',
           version := ''1.1'', body := [], header := [''Connection'' \<mapsto> ''keep-alive''], post := Map.empty\<rparr>
     \<and> readBuff c1 = \<lparr>octets = request_head, readPos = 40, writePos = 40\<rparr>"
proof -
  let ?c = "conn_with request_head"
  have rb: "readBuff ?c = Append request_head empty_Buffer"
    by (simp add: conn_with_def)
  have pos: "0 < ReadableBytes (readBuff ?c)"
    unfolding rb by (simp add: Append_empty ReadableBytes_def request_head_def CRLF_def)
  from process_returns [of "''/srv''" site site_pages ?c] site_maps
  obtain b c1 where r: "process site site_pages ''/srv'' ?c = Inr (b, c1)" by auto
  from process_parser [OF r pos] r show ?thesis
    by (simp add: rb parse_head first_call_def)
qed

lemma parsed_first_call: "parsed first_call = Some (HEADERS, ''GET'', ''/index.html'', Some ''keep-alive'')"
proof -
  from first_call_result obtain b c1 where f: "first_call = Inr (b, c1)"
    and q: "request c1 = (request (conn_with request_head))
          \<lparr>state := HEADERS, request_method := ''GET'', request_path := ''/index.html'',
           version := ''1.1'', body := [], header := [''Connection'' \<mapsto> ''keep-alive''], post := Map.empty\<rparr>"
    by blast
  show ?thesis by (simp add: parsed_def f q)
qed

lemma parsed_second_call: "parsed second_call = Some (REQUEST_LINE, [], [], None)"
proof -
  from first_call_result obtain b c1 where f: "first_call = Inr (b, c1)"
    and rb: "readBuff c1 = \<lparr>octets = request_head, readPos = 40, writePos = 40\<rparr>" by blast
  let ?c = "c1\<lparr>readBuff := Append request_tail (readBuff c1)\<rparr>"
  have rc: "readBuff ?c = Append request_tail \<lparr>octets = request_head, readPos = 40, writePos = 40\<rparr>"
    by (simp add: rb)
  have p: "fst (snd (parse site_pages (HttpRequest_Init (request c1), Append request_tail (readBuff c1))))
      = HttpRequest_Init (request c1)"
    unfolding rb using parse_tail [of "request c1"] by auto
  have pos: "0 < ReadableBytes (readBuff ?c)"
    unfolding rc
    by (simp add: Append_def MakeSpace_def compact_def WritableBytes_def ReadableBytes_def
        readable_def request_head_def request_tail_def CRLF_def Let_def)
  from process_returns [of "''/srv''" site site_pages ?c] site_maps
  obtain b2 c2 where r: "process site site_pages ''/srv'' ?c = Inr (b2, c2)" by auto
  from process_parser(1) [OF r pos] have q: "request c2 = HttpRequest_Init (request c1)"
    by (simp add: p)
  show ?thesis
    by (simp add: parsed_def second_call_def f r q HttpRequest_Init_def)
qed

text \<open>
  The status that a call of \<open>process\<close> answers. \<open>process\<close> presets 200 or 400,
  both of which have a status text, so the code that \<open>MakeResponse\<close> decides is the
  code of the response it leaves.
\<close>

lemma ErrorHtml_code: "code (ErrorHtml env r) = code r"
  by (simp add: ErrorHtml_def stat_into_def split: option.splits)

lemma MakeResponse_code:
  assumes m: "MakeResponse env (r, buff) = Inr (r1, b1)"
    and s: "CODE_STATUS (claimed_status env r) \<noteq> None"
  shows "code r1 = claimed_status env r"
proof -
  define r0 where "r0 = ErrorHtml env (check_file env r)"
  have c0: "code r0 = claimed_status env r" by (simp add: r0_def ErrorHtml_code check_file_code)
  with s obtain st where st: "CODE_STATUS (code r0) = Some st" by auto
  obtain r2 b2 where h: "AddHeader (AddStateLine (r0, buff)) = (r2, b2)"
    by (cases "AddHeader (AddStateLine (r0, buff))") auto
  then have c2: "code r2 = code r0"
    by (auto simp: AddHeader_def AddStateLine_def st Let_def)
  from m have "AddContent env (r2, b2) = Inr (r1, b1)"
    by (simp add: MakeResponse_def r0_def [symmetric] h)
  then have "code r1 = code r2"
    by (auto simp: AddContent_def ErrorContent_def Let_def split: if_splits sum.splits)
  with c2 c0 show ?thesis by simp
qed

lemma claimed_status_preset:
  "code r = 200 \<or> code r = 400 \<Longrightarrow> CODE_STATUS (claimed_status env r) \<noteq> None"
  by (auto simp: claimed_status_def CODE_STATUS_def split: option.splits)

lemma process_outcome:
  assumes pos: "0 < ReadableBytes (readBuff c)" and r: "process env pe dir c = Inr (b, c1)"
  shows "b
      \<and> request c1 = fst (snd (parse pe (HttpRequest_Init (request c), readBuff c)))
      \<and> readBuff c1 = snd (snd (parse pe (HttpRequest_Init (request c), readBuff c)))
      \<and> (\<exists>rs. HttpResponse_Init dir (request_path (request c1))
                 (fst (parse pe (HttpRequest_Init (request c), readBuff c))
                    \<and> IsKeepAlive (request c1))
                 (if fst (parse pe (HttpRequest_Init (request c), readBuff c))
                  then 200 else 400)
                 (response c) = Inr rs
            \<and> MakeResponse env (rs, writeBuff c) = Inr (response c1, writeBuff c1)
            \<and> code (response c1) = claimed_status env rs)"
proof -
  obtain ok rq rb where p: "parse pe (HttpRequest_Init (request c), readBuff c) = (ok, rq, rb)"
    by (cases "parse pe (HttpRequest_Init (request c), readBuff c)") auto
  define ini where "ini = HttpResponse_Init dir (request_path rq) (ok \<and> IsKeepAlive rq)
      (if ok then 200 else 400) (response c)"
  have ie: "(if ok then HttpResponse_Init dir (request_path rq) (IsKeepAlive rq) 200 (response c)
             else HttpResponse_Init dir (request_path rq) False 400 (response c)) = ini"
    by (simp add: ini_def)
  from pos r p obtain rs rs1 wb where i: "ini = Inr rs"
    and m: "MakeResponse env (rs, writeBuff c) = Inr (rs1, wb)"
    and b: "b"
    and q: "request c1 = rq" "readBuff c1 = rb" "response c1 = rs1" "writeBuff c1 = wb"
    unfolding ie [symmetric]
    by (auto simp: process_def Let_def split: if_splits sum.splits)
  from i have "code rs = 200 \<or> code rs = 400"
    by (auto simp: ini_def HttpResponse_Init_def Let_def split: if_splits)
  then have "CODE_STATUS (claimed_status env rs) \<noteq> None" by (rule claimed_status_preset)
  with m have c: "code rs1 = claimed_status env rs" by (rule MakeResponse_code)
  show ?thesis using b q i m c unfolding p ini_def by auto
qed

text \<open>
  The two calls on the split request: the first answers 400 with the page for it, the
  second finds no path and answers 404.
\<close>

lemma second_call_answers_404:
  "\<exists>b c1. second_call = Inr (b, c1) \<and> b \<and> code (response c1) = 404"
proof -
  from first_call_result obtain b0 c0 where f: "first_call = Inr (b0, c0)"
    and rb: "readBuff c0 = \<lparr>octets = request_head, readPos = 40, writePos = 40\<rparr>" by blast
  let ?c = "c0\<lparr>readBuff := Append request_tail (readBuff c0)\<rparr>"
  have rc: "readBuff ?c = Append request_tail \<lparr>octets = request_head, readPos = 40, writePos = 40\<rparr>"
    by (simp add: rb)
  have pos: "0 < ReadableBytes (readBuff ?c)"
    unfolding rc
    by (simp add: Append_def MakeSpace_def compact_def WritableBytes_def ReadableBytes_def
        readable_def request_head_def request_tail_def CRLF_def Let_def)
  from parse_tail [of "request c0"] obtain rb1 where
    pr: "parse site_pages (HttpRequest_Init (request ?c), readBuff ?c)
      = (False, HttpRequest_Init (request ?c), rb1)"
    unfolding rc by auto
  from process_returns [of "''/srv''" site site_pages ?c] site_maps
  obtain b c1 where r: "process site site_pages ''/srv'' ?c = Inr (b, c1)" by auto
  from process_outcome [OF pos r]
  have f2: "b" "request c1 = fst (snd (parse site_pages (HttpRequest_Init (request ?c), readBuff ?c)))"
    and e: "\<exists>rs. HttpResponse_Init ''/srv'' (request_path (request c1))
                 (fst (parse site_pages (HttpRequest_Init (request ?c), readBuff ?c))
                    \<and> IsKeepAlive (request c1))
                 (if fst (parse site_pages (HttpRequest_Init (request ?c), readBuff ?c))
                  then 200 else 400)
                 (response ?c) = Inr rs
            \<and> MakeResponse site (rs, writeBuff ?c) = Inr (response c1, writeBuff c1)
            \<and> code (response c1) = claimed_status site rs"
    by blast+
  from f2(2) have q: "request c1 = HttpRequest_Init (request ?c)" unfolding pr by simp
  have ep: "request_path (HttpRequest_Init (request ?c)) = []" by (simp add: HttpRequest_Init_def)
  have fp: "fst (parse site_pages (HttpRequest_Init (request ?c), readBuff ?c)) = False"
    unfolding pr by simp
  from e obtain rs where i: "HttpResponse_Init ''/srv'' [] False 400 (response ?c) = Inr rs"
    and cd: "code (response c1) = claimed_status site rs"
    unfolding q ep fp by auto
  from i have "srcDir rs = ''/srv''" "path rs = []"
    by (auto simp: HttpResponse_Init_def Let_def split: if_splits)
  then have "claimed_status site rs = 404"
    by (simp add: claimed_status_def site_def)
  with cd have "code (response c1) = 404" by simp
  moreover have "second_call = Inr (b, c1)" by (simp add: second_call_def f r)
  ultimately show ?thesis using f2(1) by blast
qed

text \<open>
  C1, as the code has it. The parser state is a member of the connection, but
  \<open>HttpConn::process\<close> calls \<open>request_.Init()\<close> before every \<open>parse\<close>. Its outcome
  does not depend on the parser state it finds. On an empty read buffer it returns false
  and leaves the parser reset. On any other read buffer it returns true; the parser
  state and the read buffer it leaves are those of \<open>parse\<close> started from the initial
  state (\<open>REQUEST_LINE\<close>, empty fields) on what the read buffer holds; the response
  is initialised with the parsed path, with code 200 and the keep-alive flag of the
  request when \<open>parse\<close> returned true and with code 400 and no keep-alive when it
  returned false; \<open>MakeResponse\<close> builds the response from there, and the status it
  answers is decided from that preset code: 404 for a missing path or a directory, 403
  for a file that is not readable, the preset code otherwise.
\<close>

theorem process_resets_parser:
  "process env pe dir (c\<lparr>request := q\<rparr>) = process env pe dir c
   \<and> (ReadableBytes (readBuff c) = 0
        \<longrightarrow> process env pe dir c = Inr (False, c\<lparr>request := HttpRequest_Init (request c)\<rparr>))
   \<and> (\<forall>b c1. 0 < ReadableBytes (readBuff c) \<and> process env pe dir c = Inr (b, c1)
        \<longrightarrow> b
          \<and> request c1 = fst (snd (parse pe (HttpRequest_Init (request c), readBuff c)))
          \<and> readBuff c1 = snd (snd (parse pe (HttpRequest_Init (request c), readBuff c)))
          \<and> (\<exists>rs. HttpResponse_Init dir (request_path (request c1))
                     (fst (parse pe (HttpRequest_Init (request c), readBuff c))
                        \<and> IsKeepAlive (request c1))
                     (if fst (parse pe (HttpRequest_Init (request c), readBuff c))
                      then 200 else 400)
                     (response c) = Inr rs
                \<and> MakeResponse env (rs, writeBuff c) = Inr (response c1, writeBuff c1)
                \<and> code (response c1) = claimed_status env rs))"
proof -
  have a: "process env pe dir (c\<lparr>request := q\<rparr>) = process env pe dir c"
    by (simp add: process_def HttpRequest_Init_const [of q "request c"])
  have e: "ReadableBytes (readBuff c) = 0
        \<longrightarrow> process env pe dir c = Inr (False, c\<lparr>request := HttpRequest_Init (request c)\<rparr>)"
    by (simp add: process_def Let_def)
  have p: "\<forall>b c1. 0 < ReadableBytes (readBuff c) \<and> process env pe dir c = Inr (b, c1)
        \<longrightarrow> b
          \<and> request c1 = fst (snd (parse pe (HttpRequest_Init (request c), readBuff c)))
          \<and> readBuff c1 = snd (snd (parse pe (HttpRequest_Init (request c), readBuff c)))
          \<and> (\<exists>rs. HttpResponse_Init dir (request_path (request c1))
                     (fst (parse pe (HttpRequest_Init (request c), readBuff c))
                        \<and> IsKeepAlive (request c1))
                     (if fst (parse pe (HttpRequest_Init (request c), readBuff c))
                      then 200 else 400)
                     (response c) = Inr rs
                \<and> MakeResponse env (rs, writeBuff c) = Inr (response c1, writeBuff c1)
                \<and> code (response c1) = claimed_status env rs)"
  proof (intro allI impI, elim conjE)
    fix b c1
    assume "0 < ReadableBytes (readBuff c)" and "process env pe dir c = Inr (b, c1)"
    then show "b
      \<and> request c1 = fst (snd (parse pe (HttpRequest_Init (request c), readBuff c)))
      \<and> readBuff c1 = snd (snd (parse pe (HttpRequest_Init (request c), readBuff c)))
      \<and> (\<exists>rs. HttpResponse_Init dir (request_path (request c1))
                 (fst (parse pe (HttpRequest_Init (request c), readBuff c))
                    \<and> IsKeepAlive (request c1))
                 (if fst (parse pe (HttpRequest_Init (request c), readBuff c))
                  then 200 else 400)
                 (response c) = Inr rs
            \<and> MakeResponse env (rs, writeBuff c) = Inr (response c1, writeBuff c1)
            \<and> code (response c1) = claimed_status env rs)"
      by (rule process_outcome)
  qed
  from a e p show ?thesis by (intro conjI)
qed

theorem process_resets_parser_witness:
  "ReadableBytes (readBuff (conn_with [])) = 0
   \<and> process site site_pages ''/srv'' (conn_with [])
       = Inr (False, (conn_with [])\<lparr>request := HttpRequest_Init (request (conn_with []))\<rparr>)
   \<and> (\<exists>b c1. 0 < ReadableBytes (readBuff (conn_with request_head))
     \<and> first_call = Inr (b, c1) \<and> b
     \<and> state (request c1) = HEADERS \<and> request_path (request c1) = ''/index.html''
     \<and> code (response c1) = 400)"
proof -
  have z: "ReadableBytes (readBuff (conn_with [])) = 0"
    by (simp add: conn_with_def Append_empty ReadableBytes_def)
  from process_resets_parser [of site site_pages "''/srv''" "request (conn_with [])" "conn_with []"] z
  have ze: "process site site_pages ''/srv'' (conn_with [])
       = Inr (False, (conn_with [])\<lparr>request := HttpRequest_Init (request (conn_with []))\<rparr>)"
    by (rule mp [OF conjunct1 [OF conjunct2]])
  let ?c = "conn_with request_head"
  have rb: "readBuff ?c = Append request_head empty_Buffer"
    by (simp add: conn_with_def)
  have pos: "0 < ReadableBytes (readBuff ?c)"
    unfolding rb by (simp add: Append_empty ReadableBytes_def request_head_def CRLF_def)
  from process_returns [of "''/srv''" site site_pages ?c] site_maps
  obtain b c1 where r: "process site site_pages ''/srv'' ?c = Inr (b, c1)" by auto
  have pr: "parse site_pages (HttpRequest_Init (request ?c), readBuff ?c)
      = (False,
         (request ?c)\<lparr>state := HEADERS, request_method := ''GET'', request_path := ''/index.html'',
           version := ''1.1'', body := [], header := [''Connection'' \<mapsto> ''keep-alive''],
           post := Map.empty\<rparr>,
         \<lparr>octets = request_head, readPos = 40, writePos = 40\<rparr>)"
    unfolding rb by (rule parse_head)
  from process_resets_parser [of site site_pages "''/srv''" "request ?c" ?c] pos r
  have f: "b" "request c1 = fst (snd (parse site_pages (HttpRequest_Init (request ?c), readBuff ?c)))"
    and e: "\<exists>rs. HttpResponse_Init ''/srv'' (request_path (request c1))
                 (fst (parse site_pages (HttpRequest_Init (request ?c), readBuff ?c))
                    \<and> IsKeepAlive (request c1))
                 (if fst (parse site_pages (HttpRequest_Init (request ?c), readBuff ?c))
                  then 200 else 400)
                 (response ?c) = Inr rs
            \<and> MakeResponse site (rs, writeBuff ?c) = Inr (response c1, writeBuff c1)
            \<and> code (response c1) = claimed_status site rs"
    by blast+
  from f(2) have q: "request c1 = (request ?c)\<lparr>state := HEADERS, request_method := ''GET'',
      request_path := ''/index.html'', version := ''1.1'', body := [],
      header := [''Connection'' \<mapsto> ''keep-alive''], post := Map.empty\<rparr>"
    unfolding pr by simp
  from e obtain rs where i: "HttpResponse_Init ''/srv'' ''/index.html'' False 400 (response ?c) = Inr rs"
    and cd: "code (response c1) = claimed_status site rs"
    unfolding pr q by auto
  from i have "code rs = 400" "srcDir rs = ''/srv''" "path rs = ''/index.html''"
    by (auto simp: HttpResponse_Init_def Let_def split: if_splits)
  then have "claimed_status site rs = 400"
    by (simp add: claimed_status_def site_def S_ISDIR_def S_IROTH_def)
  with cd have "code (response c1) = 400" by simp
  moreover have "first_call = Inr (b, c1)" by (simp add: first_call_def r)
  moreover from q have "state (request c1) = HEADERS" "request_path (request c1) = ''/index.html''"
    by simp_all
  ultimately have "\<exists>b c1. 0 < ReadableBytes (readBuff (conn_with request_head))
     \<and> first_call = Inr (b, c1) \<and> b
     \<and> state (request c1) = HEADERS \<and> request_path (request c1) = ''/index.html''
     \<and> code (response c1) = 400"
    using f(1) pos by blast
  with z ze show ?thesis by (intro conjI)
qed

text \<open>
  C1, as stated, says that processing a request that arrives in two reads ends with the
  same parsed request as processing it in one piece. For \<open>GET /\<close> cut after the
  \<open>Connection\<close> line, one call reaches \<open>FINISH\<close> with the path \<open>/index.html\<close>; the
  first of two calls stops in \<open>HEADERS\<close>, and the second, started afresh on the
  remaining empty line, stays in \<open>REQUEST_LINE\<close> with nothing parsed.
\<close>

theorem split_request_not_resumed:
  "parsed one_call = Some (FINISH, ''GET'', ''/index.html'', Some ''keep-alive'')
   \<and> parsed first_call = Some (HEADERS, ''GET'', ''/index.html'', Some ''keep-alive'')
   \<and> parsed second_call = Some (REQUEST_LINE, [], [], None)
   \<and> parsed second_call \<noteq> parsed one_call"
  using parsed_one_call parsed_first_call parsed_second_call by simp

end
